theory Spec2Isabelle
  imports Main "HOL-Library.Word"
begin

unbundle bit_operations_syntax

section \<open>The heap of lib.Heap.hpp\<close>

text \<open>
  The embedding follows \<^verbatim>\<open>src/include/public/lib.Heap.hpp\<close>.

  \<^item> \<^verbatim>\<open>size_t\<close>, \<^verbatim>\<open>uintptr_t\<close> and every pointer are 64-bit words (an LP64 target):
    \<open>+\<close> and \<open>-\<close> wrap around as the unsigned arithmetic of the source does, and the
    null pointer is the word \<open>0\<close>. \<^verbatim>\<open>int32_t\<close> is a 32-bit word. With a 64-bit
    \<^verbatim>\<open>size_t\<close> the member \<^verbatim>\<open>key_\<close> holds the whole of \<^verbatim>\<open>BLOCK_KEY\<close>.
  \<^item> \<^verbatim>\<open>sizeof(Heap)\<close> and \<^verbatim>\<open>sizeof(HeapBlock)\<close> depend on the compiler and on
    declarations outside these sources; they are the parameters \<open>hs\<close> and \<open>hb\<close> of every
    function that uses them, and the source's run-time tests of them are kept.
  \<^item> Memory is a store of objects: one map from addresses to \<^verbatim>\<open>HeapBlock\<close> headers, one
    from addresses to the \<^verbatim>\<open>HeapData\<close> of \<^verbatim>\<open>Heap\<close> objects. Both maps are total, so a
    read through any pointer yields some header, as a read of raw memory does. The cells
    that \<^verbatim>\<open>isMemoryAvailable\<close> writes and reads are a separate component, reached
    through a device (a read and a write function), so that memory which does not hold
    what was written can be described.
  \<^item> A member name of the source that ends in an underscore gets the suffix \<open>b\<close>:
    \<^verbatim>\<open>next_\<close> is \<open>next_b\<close>.
\<close>

type_synonym addr = "64 word"
type_synonym cell = "8 word"

record HeapBlock =
  heap_b :: addr
  prev_b :: addr
  next_b :: addr
  attr_b :: "32 word"
  size_b :: addr
  key_b :: addr

record HeapData =
  data_block :: addr
  data_toggle :: addr
  data_size :: addr
  data_key :: "32 word"

record 'm device =
  rd :: "'m \<Rightarrow> addr \<Rightarrow> cell"
  wr :: "'m \<Rightarrow> addr \<Rightarrow> cell \<Rightarrow> 'm"

record 'm state =
  cells :: 'm
  blocks :: "addr \<Rightarrow> HeapBlock"
  heaps :: "addr \<Rightarrow> HeapData"
  toggle_ptrs :: "addr \<Rightarrow> addr"
  irq :: "addr \<Rightarrow> bool"

definition BLOCK_KEY :: addr where
  "BLOCK_KEY = 0x1982040120150515"

definition ATTR_USED :: "32 word" where
  "ATTR_USED = 0x00000001"

definition NEXT_FREE :: "32 word" where
  "NEXT_FREE = 0x00000001"

definition PREV_FREE :: "32 word" where
  "PREV_FREE = 0x00000002"

definition HEAP_KEY :: "32 word" where
  "HEAP_KEY = 0x19811019"

subsection \<open>HeapBlock\<close>

definition HeapBlock_ctor :: "addr \<Rightarrow> addr \<Rightarrow> addr \<Rightarrow> HeapBlock" where
  "HeapBlock_ctor hb heap sz =
     \<lparr>heap_b = heap, prev_b = 0, next_b = 0, attr_b = 0, size_b = sz - hb, key_b = BLOCK_KEY\<rparr>"

text \<open>\<^verbatim>\<open>HeapBlock::operator new(size_t, void*)\<close>: the address, or null.\<close>

definition HeapBlock_new :: "addr \<Rightarrow> addr \<Rightarrow> addr" where
  "HeapBlock_new hb ptr =
     (if hb AND 0x7 \<noteq> 0 then 0
      else if ptr AND 0x7 \<noteq> 0 then 0
      else ptr)"

definition isConstructed :: "HeapBlock \<Rightarrow> bool" where
  "isConstructed b = (if key_b b = BLOCK_KEY then True else False)"

definition isUsed :: "HeapBlock \<Rightarrow> bool" where
  "isUsed b = (if attr_b b AND ATTR_USED \<noteq> 0 then True else False)"

definition data :: "addr \<Rightarrow> addr \<Rightarrow> addr" where
  "data hb this = this + hb"

text \<open>\<^verbatim>\<open>HeapBlock::next(size)\<close>.\<close>

definition next_at :: "addr \<Rightarrow> addr \<Rightarrow> addr \<Rightarrow> addr" where
  "next_at hb this sz = this + hb + sz"

text \<open>
  The scan of \<^verbatim>\<open>alloc\<close>: the \<^verbatim>\<open>while\<close> loop follows \<^verbatim>\<open>next_\<close> until it reaches
  null or a free block that is large enough. On a cyclic chain of unfit blocks it does
  not return, which is the value \<open>None\<close>.
\<close>

partial_function (option) alloc_scan :: "(addr \<Rightarrow> HeapBlock) \<Rightarrow> addr \<Rightarrow> addr \<Rightarrow> addr option" where
  "alloc_scan B sz cur =
     (if cur \<noteq> 0 then
        (if isUsed (B cur) then alloc_scan B sz (next_b (B cur))
         else if size_b (B cur) < sz then alloc_scan B sz (next_b (B cur))
         else Some cur)
      else Some cur)"

declare alloc_scan.simps [code]

text \<open>The size of a request after \<^verbatim>\<open>alloc\<close> has aligned it.\<close>

definition align8 :: "addr \<Rightarrow> addr" where
  "align8 sz = (if sz AND 0x7 \<noteq> 0 then (sz AND NOT 0x7) + 0x8 else sz)"

definition alloc :: "addr \<Rightarrow> (addr \<Rightarrow> HeapBlock) \<Rightarrow> addr \<Rightarrow> addr \<Rightarrow> ((addr \<Rightarrow> HeapBlock) \<times> addr) option" where
  "alloc hb B this sz0 =
     (if sz0 = 0 then Some (B, 0)
      else
        let sz = align8 sz0 in
        case alloc_scan B sz this of
          None \<Rightarrow> None
        | Some cur \<Rightarrow>
            if cur = 0 then Some (B, 0)
            else if size_b (B cur) \<ge> sz + hb then
              let nxt = HeapBlock_new hb (next_at hb cur sz) in
              if nxt = 0 then Some (B, 0)
              else
                let B1 = B(nxt := HeapBlock_ctor hb (heap_b (B this)) (size_b (B cur) - sz));
                    B2 = B1(nxt := (B1 nxt)\<lparr>next_b := next_b (B1 cur)\<rparr>);
                    B3 = B2(nxt := (B2 nxt)\<lparr>prev_b := cur\<rparr>);
                    B4 = (if next_b (B3 nxt) \<noteq> 0
                          then B3(next_b (B3 nxt) := (B3 (next_b (B3 nxt)))\<lparr>prev_b := nxt\<rparr>)
                          else B3);
                    B5 = B4(cur := (B4 cur)\<lparr>next_b := nxt\<rparr>);
                    B6 = B5(cur := (B5 cur)\<lparr>size_b := sz\<rparr>);
                    B7 = B6(cur := (B6 cur)\<lparr>attr_b := attr_b (B6 cur) OR ATTR_USED\<rparr>)
                in Some (B7, data hb cur)
            else
              Some (B(cur := (B cur)\<lparr>attr_b := attr_b (B cur) OR ATTR_USED\<rparr>), data hb cur))"

subsection \<open>Heap\<close>

definition getFirstBlock :: "addr \<Rightarrow> addr \<Rightarrow> addr" where
  "getFirstBlock hs this = this + hs"

definition heapBlock :: "addr \<Rightarrow> addr \<Rightarrow> addr" where
  "heapBlock hb dat = dat - hb"

text \<open>\<^verbatim>\<open>Heap::isConstructed()\<close>.\<close>

definition Heap_isConstructed :: "addr \<Rightarrow> 'm state \<Rightarrow> addr \<Rightarrow> bool" where
  "Heap_isConstructed hs S this =
     (if data_key (heaps S this) \<noteq> HEAP_KEY then False
      else if \<not> isConstructed (blocks S (getFirstBlock hs this)) then False
      else True)"

definition canDelete :: "addr \<Rightarrow> 'm state \<Rightarrow> addr \<Rightarrow> bool" where
  "canDelete hs S this =
     (if \<not> isConstructed (blocks S this) then False
      else if \<not> Heap_isConstructed hs S (heap_b (blocks S this)) then False
      else True)"

text \<open>
  \<^verbatim>\<open>HeapBlock::free()\<close>. It writes to block headers only: \<open>free_switch\<close> is what its
  statements after the \<^verbatim>\<open>canDelete\<close> test do to the headers. Each statement reads the
  members it names from the store as the statements before it left it.
\<close>

definition free_switch :: "addr \<Rightarrow> (addr \<Rightarrow> HeapBlock) \<Rightarrow> addr \<Rightarrow> (addr \<Rightarrow> HeapBlock)" where
  "free_switch hb B this =
     (let sibling0 = (0 :: 32 word);
          sibling1 = (if prev_b (B this) \<noteq> 0 \<and> \<not> isUsed (B (prev_b (B this)))
                      then sibling0 OR PREV_FREE else sibling0);
          sibling = (if next_b (B this) \<noteq> 0 \<and> \<not> isUsed (B (next_b (B this)))
                     then sibling1 OR NEXT_FREE else sibling1)
      in
      if sibling = PREV_FREE OR NEXT_FREE then
        let p = prev_b (B this);
            B1 = B(p := (B p)\<lparr>size_b := size_b (B p)
                    + (2 * hb + size_b (B this) + size_b (B (next_b (B this))))\<rparr>);
            p1 = prev_b (B1 this);
            B2 = B1(p1 := (B1 p1)\<lparr>next_b := next_b (B1 (next_b (B1 this)))\<rparr>);
            p2 = prev_b (B2 this)
        in
        if next_b (B2 p2) \<noteq> 0
        then B2(next_b (B2 p2) := (B2 (next_b (B2 p2)))\<lparr>prev_b := p2\<rparr>)
        else B2
      else if sibling = PREV_FREE then
        let p = prev_b (B this);
            B1 = B(p := (B p)\<lparr>size_b := size_b (B p) + (hb + size_b (B this))\<rparr>);
            p1 = prev_b (B1 this);
            B2 = B1(p1 := (B1 p1)\<lparr>next_b := next_b (B1 this)\<rparr>);
            n2 = next_b (B2 this)
        in
        if n2 \<noteq> 0 then B2(n2 := (B2 n2)\<lparr>prev_b := prev_b (B2 this)\<rparr>) else B2
      else if sibling = NEXT_FREE then
        let B1 = B(this := (B this)\<lparr>size_b := size_b (B this)
                    + (hb + size_b (B (next_b (B this))))\<rparr>);
            B2 = B1(this := (B1 this)\<lparr>next_b := next_b (B1 (next_b (B1 this)))\<rparr>);
            n2 = next_b (B2 this);
            B3 = (if n2 \<noteq> 0 then B2(n2 := (B2 n2)\<lparr>prev_b := this\<rparr>) else B2)
        in B3(this := (B3 this)\<lparr>attr_b := attr_b (B3 this) AND NOT ATTR_USED\<rparr>)
      else
        B(this := (B this)\<lparr>attr_b := attr_b (B this) AND NOT ATTR_USED\<rparr>))"

definition free :: "addr \<Rightarrow> addr \<Rightarrow> 'm state \<Rightarrow> addr \<Rightarrow> 'm state" where
  "free hs hb S this =
     (if \<not> canDelete hs S this then S
      else S\<lparr>blocks := free_switch hb (blocks S) this\<rparr>)"

text \<open>
  Modelled from the spec: the toggle capability of \<^verbatim>\<open>api::Toggle\<close>, which these sources
  only call. \<open>disable\<close> returns the prior enablement state, \<open>enable\<close> restores a given
  prior state. \<open>irq S t\<close> is the enablement state of the toggle object at \<open>t\<close>.
\<close>

definition Toggle_disable :: "'m state \<Rightarrow> addr \<Rightarrow> bool \<times> 'm state" where
  "Toggle_disable S t = (irq S t, S\<lparr>irq := (irq S)(t := False)\<rparr>)"

definition Toggle_enable :: "'m state \<Rightarrow> addr \<Rightarrow> bool \<Rightarrow> 'm state" where
  "Toggle_enable S t status = S\<lparr>irq := (irq S)(t := status)\<rparr>"

text \<open>
  \<^verbatim>\<open>Heap::disable()\<close> and \<^verbatim>\<open>Heap::enable(status)\<close>: \<^verbatim>\<open>data_.toggle\<close> points to a
  pointer to the toggle, and either may be null.
\<close>

definition disable :: "'m state \<Rightarrow> addr \<Rightarrow> bool \<times> 'm state" where
  "disable S this =
     (if data_toggle (heaps S this) = 0 then (False, S)
      else
        let toggle = toggle_ptrs S (data_toggle (heaps S this)) in
        if toggle \<noteq> 0 then Toggle_disable S toggle else (False, S))"

definition enable :: "'m state \<Rightarrow> addr \<Rightarrow> bool \<Rightarrow> 'm state" where
  "enable S this status =
     (if data_toggle (heaps S this) = 0 then S
      else
        let toggle = toggle_ptrs S (data_toggle (heaps S this)) in
        if toggle \<noteq> 0 then Toggle_enable S toggle status else S)"

text \<open>\<^verbatim>\<open>Heap::allocate(size, ptr)\<close>.\<close>

definition Heap_allocate :: "addr \<Rightarrow> addr \<Rightarrow> 'm state \<Rightarrow> addr \<Rightarrow> addr \<Rightarrow> addr \<Rightarrow> ('m state \<times> addr) option" where
  "Heap_allocate hs hb S this sz ptr =
     (if \<not> Heap_isConstructed hs S this then Some (S, 0)
      else if ptr \<noteq> 0 then Some (S, ptr)
      else
        let (is, S1) = disable S this in
        case alloc hb (blocks S1) (getFirstBlock hs this) sz of
          None \<Rightarrow> None
        | Some (B, p) \<Rightarrow> Some (enable (S1\<lparr>blocks := B\<rparr>) this is, p))"

text \<open>\<^verbatim>\<open>Heap::free(ptr)\<close>.\<close>

definition Heap_free :: "addr \<Rightarrow> addr \<Rightarrow> 'm state \<Rightarrow> addr \<Rightarrow> addr \<Rightarrow> 'm state" where
  "Heap_free hs hb S this ptr =
     (if ptr = 0 then S
      else if \<not> Heap_isConstructed hs S this then S
      else
        let (is, S1) = disable S this;
            S2 = free hs hb S1 (heapBlock hb ptr)
        in enable S2 this is)"

subsection \<open>The memory test\<close>

text \<open>
  \<^verbatim>\<open>cell_t\<close> is declared outside these sources; the specification speaks of bytes, so a
  cell is an 8-bit word, and \<^verbatim>\<open>ptr[i]\<close> is the cell at \<open>ptr + i\<close>. The conversion of a
  value to \<^verbatim>\<open>cell_t\<close> keeps its low eight bits, so the mask \<open>-1\<close> changes no pattern.

  One write loop and one compare loop of \<^verbatim>\<open>isMemoryAvailable\<close>; the index is a
  \<^verbatim>\<open>size_t\<close> that stays below \<open>sz\<close>. The compare loop returns at the first mismatch.
\<close>

function fill_loop :: "'m device \<Rightarrow> addr \<Rightarrow> (addr \<Rightarrow> cell) \<Rightarrow> addr \<Rightarrow> addr \<Rightarrow> 'm \<Rightarrow> 'm" where
  "fill_loop d ptr pat sz i m =
     (if i < sz then fill_loop d ptr pat sz (i + 1) (wr d m (ptr + i) (pat i)) else m)"
  by pat_completeness auto
termination
proof (relation "measure (\<lambda>(d, ptr, pat, sz, i, m). unat sz - unat i)")
  show "wf (measure (\<lambda>(d :: 'm device, ptr :: addr, pat :: addr \<Rightarrow> cell, sz :: addr, i :: addr, m :: 'm).
              unat sz - unat i))"
    by simp
next
  fix d :: "'m device" and ptr :: addr and pat :: "addr \<Rightarrow> cell" and sz i :: addr and m :: 'm
  assume "i < sz"
  then have "unat i < unat sz"
    by (simp add: word_less_nat_alt)
  moreover from this have "unat (i + 1) = unat i + 1"
    using unsigned_less [of sz, where 'a = nat] by (simp add: unat_word_ariths)
  ultimately show "((d, ptr, pat, sz, i + 1, wr d m (ptr + i) (pat i)), (d, ptr, pat, sz, i, m))
      \<in> measure (\<lambda>(d, ptr, pat, sz, i, m). unat sz - unat i)"
    by simp
qed

function check_loop :: "'m device \<Rightarrow> addr \<Rightarrow> (addr \<Rightarrow> cell) \<Rightarrow> addr \<Rightarrow> addr \<Rightarrow> 'm \<Rightarrow> bool" where
  "check_loop d ptr pat sz i m =
     (if i < sz then
        (if rd d m (ptr + i) \<noteq> pat i then False else check_loop d ptr pat sz (i + 1) m)
      else True)"
  by pat_completeness auto
termination
proof (relation "measure (\<lambda>(d, ptr, pat, sz, i, m). unat sz - unat i)")
  show "wf (measure (\<lambda>(d :: 'm device, ptr :: addr, pat :: addr \<Rightarrow> cell, sz :: addr, i :: addr, m :: 'm).
              unat sz - unat i))"
    by simp
next
  fix d :: "'m device" and ptr :: addr and pat :: "addr \<Rightarrow> cell" and sz i :: addr and m :: 'm
  assume "i < sz"
  then have "unat i < unat sz"
    by (simp add: word_less_nat_alt)
  moreover from this have "unat (i + 1) = unat i + 1"
    using unsigned_less [of sz, where 'a = nat] by (simp add: unat_word_ariths)
  ultimately show "((d, ptr, pat, sz, i + 1, m), (d, ptr, pat, sz, i, m))
      \<in> measure (\<lambda>(d, ptr, pat, sz, i, m). unat sz - unat i)"
    by simp
qed

definition mask_c :: cell where
  "mask_c = - 1"

text \<open>The four patterns, as the cell written at index \<open>i\<close>.\<close>

definition pat_value :: "addr \<Rightarrow> cell" where
  "pat_value i = ucast (i AND scast mask_c)"

definition pat_55 :: "addr \<Rightarrow> cell" where
  "pat_55 i = ucast ((0x55555555 :: 32 word) AND scast mask_c)"

definition pat_aa :: "addr \<Rightarrow> cell" where
  "pat_aa i = ucast ((0xaaaaaaaa :: 32 word) AND scast mask_c)"

definition pat_zero :: "addr \<Rightarrow> cell" where
  "pat_zero i = 0x00"

definition isMemoryAvailable :: "'m device \<Rightarrow> 'm \<Rightarrow> addr \<Rightarrow> addr \<Rightarrow> bool \<times> 'm" where
  "isMemoryAvailable d m ptr sz =
     (let m1 = fill_loop d ptr pat_value sz 0 m in
      if \<not> check_loop d ptr pat_value sz 0 m1 then (False, m1)
      else
        let m2 = fill_loop d ptr pat_55 sz 0 m1 in
        if \<not> check_loop d ptr pat_55 sz 0 m2 then (False, m2)
        else
          let m3 = fill_loop d ptr pat_aa sz 0 m2 in
          if \<not> check_loop d ptr pat_aa sz 0 m3 then (False, m3)
          else
            let m4 = fill_loop d ptr pat_zero sz 0 m3 in
            if \<not> check_loop d ptr pat_zero sz 0 m4 then (False, m4)
            else (True, m4))"

subsection \<open>Construction\<close>

definition HeapData_ctor :: "addr \<Rightarrow> addr \<Rightarrow> HeapData" where
  "HeapData_ctor hs isize =
     \<lparr>data_block = 0, data_toggle = 0, data_size = (isize AND NOT 0x7) - hs, data_key = HEAP_KEY\<rparr>"

definition setConstructed :: "'m state \<Rightarrow> addr \<Rightarrow> bool \<Rightarrow> 'm state" where
  "setConstructed S this flag =
     (if data_key (heaps S this) = HEAP_KEY
      then S\<lparr>heaps := (heaps S)(this := (heaps S this)\<lparr>data_key := (if flag then HEAP_KEY else 0)\<rparr>)\<rparr>
      else S)"

text \<open>\<^verbatim>\<open>Heap::construct()\<close>: the result and the state it leaves.\<close>

definition construct :: "'m device \<Rightarrow> addr \<Rightarrow> addr \<Rightarrow> 'm state \<Rightarrow> addr \<Rightarrow> bool \<times> 'm state" where
  "construct d hs hb S this =
     (if hb + 16 > data_size (heaps S this) then (False, S)
      else if hs AND 0x7 \<noteq> 0 then (False, S)
      else if hb AND 0x7 \<noteq> 0 then (False, S)
      else
        let ptr = this + hs;
            (ok, m) = isMemoryAvailable d (cells S) ptr (data_size (heaps S this));
            S1 = S\<lparr>cells := m\<rparr>
        in
        if \<not> ok then (False, S1)
        else
          let p = HeapBlock_new hb (getFirstBlock hs this);
              S2 = (if p \<noteq> 0
                    then S1\<lparr>blocks := (blocks S1)(p := HeapBlock_ctor hb this (data_size (heaps S1 this)))\<rparr>
                    else S1);
              S3 = S2\<lparr>heaps := (heaps S2)(this := (heaps S2 this)\<lparr>data_block := p\<rparr>)\<rparr>
          in (if data_block (heaps S3 this) \<noteq> 0 then True else False, S3))"

text \<open>The constructor \<^verbatim>\<open>Heap(size_t size)\<close> on the object at \<open>this\<close>.\<close>

definition Heap_ctor :: "'m device \<Rightarrow> addr \<Rightarrow> addr \<Rightarrow> 'm state \<Rightarrow> addr \<Rightarrow> addr \<Rightarrow> 'm state" where
  "Heap_ctor d hs hb S this isize =
     (let S1 = S\<lparr>heaps := (heaps S)(this := HeapData_ctor hs isize)\<rparr>;
          (isConstructed, S2) = construct d hs hb S1 this
      in setConstructed S2 this isConstructed)"

text \<open>\<^verbatim>\<open>Heap::create(ptr)\<close>: the address or null, and the state the memory test leaves.\<close>

definition create :: "'m device \<Rightarrow> addr \<Rightarrow> 'm state \<Rightarrow> addr \<Rightarrow> addr \<times> 'm state" where
  "create d hs S ptr =
     (let ptr1 = (if hs AND 0x7 \<noteq> 0 then 0 else ptr);
          (ok, m) = isMemoryAvailable d (cells S) ptr1 hs;
          S1 = S\<lparr>cells := m\<rparr>;
          ptr2 = (if \<not> ok then 0 else ptr1);
          ptr3 = (if ptr2 AND 0x7 \<noteq> 0 then 0 else ptr2)
      in (ptr3, S1))"

text \<open>\<^verbatim>\<open>Heap::operator new(size_t, uintptr_t)\<close>.\<close>

definition Heap_new :: "'m device \<Rightarrow> addr \<Rightarrow> 'm state \<Rightarrow> addr \<Rightarrow> addr \<times> 'm state" where
  "Heap_new d hs S ptr = (if ptr = 0 then (ptr, S) else create d hs S ptr)"

text \<open>
  The expression \<^verbatim>\<open>new (ptr) Heap(size)\<close>: when \<^verbatim>\<open>operator new\<close> returns null no
  constructor runs and the expression is the null pointer.
\<close>

definition install :: "'m device \<Rightarrow> addr \<Rightarrow> addr \<Rightarrow> 'm state \<Rightarrow> addr \<Rightarrow> addr \<Rightarrow> addr \<times> 'm state" where
  "install d hs hb S ptr isize =
     (let (memory, S1) = Heap_new d hs S ptr in
      if memory = 0 then (0, S1)
      else (memory, Heap_ctor d hs hb S1 memory isize))"

subsection \<open>Example states\<close>

text \<open>
  Concrete inputs for the instances below, for a target with \<^verbatim>\<open>sizeof(Heap) = 48\<close> and
  \<^verbatim>\<open>sizeof(HeapBlock) = 48\<close>. \<open>ex_S\<close> is a heap object at \<open>0x1000\<close> whose first block at
  \<open>0x1030\<close> is free and spans \<open>0x3a0\<close> bytes of payload up to \<open>0x1400\<close>; every other
  address holds a header and a heap object without keys.
\<close>

definition ex_junk :: HeapBlock where
  "ex_junk = \<lparr>heap_b = 0, prev_b = 0, next_b = 0, attr_b = 0, size_b = 0, key_b = 0\<rparr>"

definition ex_B :: "addr \<Rightarrow> HeapBlock" where
  "ex_B = (\<lambda>a. ex_junk)
     (0x1030 := \<lparr>heap_b = 0x1000, prev_b = 0, next_b = 0, attr_b = 0, size_b = 0x3a0,
                 key_b = BLOCK_KEY\<rparr>)"

definition ex_H :: "addr \<Rightarrow> HeapData" where
  "ex_H = (\<lambda>a. \<lparr>data_block = 0, data_toggle = 0, data_size = 0, data_key = 0\<rparr>)
     (0x1000 := \<lparr>data_block = 0x1030, data_toggle = 0, data_size = 0x3d0, data_key = HEAP_KEY\<rparr>)"

definition ex_S :: "unit state" where
  "ex_S = \<lparr>cells = (), blocks = ex_B, heaps = ex_H, toggle_ptrs = (\<lambda>a. 0), irq = (\<lambda>a. False)\<rparr>"

subsection \<open>Devices\<close>

text \<open>
  Two devices for the memory test: \<open>ram\<close> holds every cell that was written, \<open>absent\<close>
  ignores writes and reads \<open>0xFF\<close> everywhere. \<open>holds_writes\<close> says of a device that a
  read returns the last value written to that cell.
\<close>

definition ram :: "(addr \<Rightarrow> cell) device" where
  "ram = \<lparr>rd = (\<lambda>m a. m a), wr = (\<lambda>m a v. m(a := v))\<rparr>"

definition absent :: "unit device" where
  "absent = \<lparr>rd = (\<lambda>m a. 0xFF), wr = (\<lambda>m a v. m)\<rparr>"

definition holds_writes :: "'m device \<Rightarrow> bool" where
  "holds_writes d = (\<forall>m a v a'. rd d (wr d m a v) a' = (if a' = a then v else rd d m a'))"

text \<open>
  A chain of three blocks at \<open>0x1030\<close>, \<open>0x1070\<close> and \<open>0x10c0\<close> that fills the same
  region, with the used flags given.
\<close>

definition ex_chain :: "bool \<Rightarrow> bool \<Rightarrow> bool \<Rightarrow> addr \<Rightarrow> HeapBlock" where
  "ex_chain u1 u2 u3 = (\<lambda>a. ex_junk)
     (0x1030 := \<lparr>heap_b = 0x1000, prev_b = 0, next_b = 0x1070, attr_b = (if u1 then 1 else 0),
                 size_b = 0x10, key_b = BLOCK_KEY\<rparr>,
      0x1070 := \<lparr>heap_b = 0x1000, prev_b = 0x1030, next_b = 0x10c0, attr_b = (if u2 then 1 else 0),
                 size_b = 0x20, key_b = BLOCK_KEY\<rparr>,
      0x10c0 := \<lparr>heap_b = 0x1000, prev_b = 0x1070, next_b = 0, attr_b = (if u3 then 1 else 0),
                 size_b = 0x310, key_b = BLOCK_KEY\<rparr>)"

definition ex_S3 :: "bool \<Rightarrow> bool \<Rightarrow> bool \<Rightarrow> unit state" where
  "ex_S3 u1 u2 u3 = \<lparr>cells = (), blocks = ex_chain u1 u2 u3, heaps = ex_H, toggle_ptrs = (\<lambda>a. 0), irq = (\<lambda>a. False)\<rparr>"

subsection \<open>The cases of free\<close>

text \<open>
  The two tests of \<^verbatim>\<open>free\<close> on the neighbours of a block, and the headers its three
  merging cases leave, written without the intermediate stores.
\<close>

definition prev_free :: "(addr \<Rightarrow> HeapBlock) \<Rightarrow> addr \<Rightarrow> bool" where
  "prev_free B b = (prev_b (B b) \<noteq> 0 \<and> \<not> isUsed (B (prev_b (B b))))"

definition next_free :: "(addr \<Rightarrow> HeapBlock) \<Rightarrow> addr \<Rightarrow> bool" where
  "next_free B b = (next_b (B b) \<noteq> 0 \<and> \<not> isUsed (B (next_b (B b))))"

definition merge_both :: "addr \<Rightarrow> (addr \<Rightarrow> HeapBlock) \<Rightarrow> addr \<Rightarrow> (addr \<Rightarrow> HeapBlock)" where
  "merge_both hb B b =
    (let p = prev_b (B b); n = next_b (B b);
         B2 = B(p := (B p)\<lparr>size_b := size_b (B p) + (2 * hb + size_b (B b) + size_b (B n)),
                            next_b := next_b (B n)\<rparr>)
     in if next_b (B n) \<noteq> 0 then B2(next_b (B n) := (B2 (next_b (B n)))\<lparr>prev_b := p\<rparr>) else B2)"

definition merge_prev :: "addr \<Rightarrow> (addr \<Rightarrow> HeapBlock) \<Rightarrow> addr \<Rightarrow> (addr \<Rightarrow> HeapBlock)" where
  "merge_prev hb B b =
    (let p = prev_b (B b); n = next_b (B b);
         B2 = B(p := (B p)\<lparr>size_b := size_b (B p) + (hb + size_b (B b)), next_b := n\<rparr>)
     in if n \<noteq> 0 then B2(n := (B2 n)\<lparr>prev_b := p\<rparr>) else B2)"

definition merge_next :: "addr \<Rightarrow> (addr \<Rightarrow> HeapBlock) \<Rightarrow> addr \<Rightarrow> (addr \<Rightarrow> HeapBlock)" where
  "merge_next hb B b =
    (let n = next_b (B b);
         B2 = B(b := (B b)\<lparr>size_b := size_b (B b) + (hb + size_b (B n)), next_b := next_b (B n)\<rparr>);
         B3 = (if next_b (B n) \<noteq> 0 then B2(next_b (B n) := (B2 (next_b (B n)))\<lparr>prev_b := b\<rparr>) else B2)
     in B3(b := (B3 b)\<lparr>attr_b := attr_b (B3 b) AND NOT ATTR_USED\<rparr>))"

subsection \<open>The layout of a chain\<close>

text \<open>
  \<open>lay hb B h p x a bs y e\<close>: in the store \<open>B\<close> the pointer \<open>x\<close> starts the chain
  segment \<open>bs\<close>. Every block of it is non-null, lies at the address where its
  predecessor's payload ends (the first one at \<open>a\<close>), is aligned to eight as is its
  size, carries the block key and the heap \<open>h\<close>, and points back to its predecessor
  (the first one to \<open>p\<close>); the \<^verbatim>\<open>next_\<close> of the last block is \<open>y\<close> and its payload ends at
  \<open>e\<close>. Addresses are compared as natural numbers, so a segment never wraps around.
\<close>

primrec lay :: "addr \<Rightarrow> (addr \<Rightarrow> HeapBlock) \<Rightarrow> addr \<Rightarrow> addr \<Rightarrow> addr \<Rightarrow> nat \<Rightarrow> addr list \<Rightarrow> addr \<Rightarrow> nat \<Rightarrow> bool" where
  "lay hb B h p x a [] y e \<longleftrightarrow> x = y \<and> a = e"
| "lay hb B h p x a (b # bs) y e \<longleftrightarrow>
     x = b \<and> b \<noteq> 0 \<and> unat b = a \<and> 8 dvd a \<and> 8 dvd unat (size_b (B b))
     \<and> key_b (B b) = BLOCK_KEY \<and> heap_b (B b) = h \<and> prev_b (B b) = p
     \<and> lay hb B h b (next_b (B b)) (a + unat hb + unat (size_b (B b))) bs y e"

text \<open>No two neighbours in a list of used flags are both free.\<close>

fun no_adjacent_free :: "bool list \<Rightarrow> bool" where
  "no_adjacent_free (u # v # us) \<longleftrightarrow> (u \<or> v) \<and> no_adjacent_free (v # us)"
| "no_adjacent_free us \<longleftrightarrow> True"

text \<open>The blocks at which the scan of \<^verbatim>\<open>alloc\<close> stops.\<close>

definition fits :: "(addr \<Rightarrow> HeapBlock) \<Rightarrow> addr \<Rightarrow> addr \<Rightarrow> bool" where
  "fits B sz b \<longleftrightarrow> \<not> isUsed (B b) \<and> \<not> size_b (B b) < sz"

text \<open>
  The store \<^verbatim>\<open>alloc\<close> leaves when it splits the block \<open>c\<close> for a request of \<open>sz\<close>
  bytes, written without the intermediate stores; \<open>hp\<close> is the heap of the new block.
\<close>

definition split_at :: "addr \<Rightarrow> (addr \<Rightarrow> HeapBlock) \<Rightarrow> addr \<Rightarrow> addr \<Rightarrow> addr \<Rightarrow> (addr \<Rightarrow> HeapBlock)" where
  "split_at hb B hp c sz =
    (let N = c + hb + sz; n = next_b (B c);
         B1 = B(N := \<lparr>heap_b = hp, prev_b = c, next_b = n, attr_b = 0,
                      size_b = size_b (B c) - sz - hb, key_b = BLOCK_KEY\<rparr>);
         B2 = (if n \<noteq> 0 then B1(n := (B1 n)\<lparr>prev_b := N\<rparr>) else B1)
     in B2(c := (B2 c)\<lparr>next_b := N, size_b := sz, attr_b := attr_b (B2 c) OR ATTR_USED\<rparr>))"

text \<open>
  The invariant of the chain of a heap \<open>h\<close> whose first block is \<open>first\<close> and whose
  memory ends at \<open>e\<close>, and the used blocks of a chain.
\<close>

definition chain_inv :: "addr \<Rightarrow> (addr \<Rightarrow> HeapBlock) \<Rightarrow> addr \<Rightarrow> addr \<Rightarrow> nat \<Rightarrow> addr list \<Rightarrow> bool" where
  "chain_inv hb B h first e bs \<longleftrightarrow>
     hb \<noteq> 0 \<and> 8 dvd unat hb \<and> e < 2 ^ 64 \<and> bs \<noteq> []
     \<and> lay hb B h 0 first (unat first) bs 0 e
     \<and> no_adjacent_free (map (\<lambda>b. isUsed (B b)) bs)"

definition used_blocks :: "(addr \<Rightarrow> HeapBlock) \<Rightarrow> addr list \<Rightarrow> addr set" where
  "used_blocks B bs = {b \<in> set bs. isUsed (B b)}"

subsection \<open>Sequences of calls\<close>

text \<open>
  A caller's view of one heap \<open>h\<close>: calls of \<^verbatim>\<open>allocate(size, NULLPTR)\<close> and of
  \<^verbatim>\<open>free(ptr)\<close>. A state is paired with the list of outstanding allocations, the
  addresses that \<^verbatim>\<open>allocate\<close> has returned and that have not been passed to \<^verbatim>\<open>free\<close>
  since. \<open>step\<close> and \<open>run\<close> are \<open>None\<close> when a call does not return.
\<close>

datatype call = Allocate addr | Free addr

fun step :: "addr \<Rightarrow> addr \<Rightarrow> addr \<Rightarrow> 'm state \<times> addr list \<Rightarrow> call \<Rightarrow> ('m state \<times> addr list) option" where
  "step hs hb h (S, out) (Allocate n) =
     (case Heap_allocate hs hb S h n 0 of
        None \<Rightarrow> None
      | Some (S', p) \<Rightarrow> Some (S', if p = 0 then out else p # out))"
| "step hs hb h (S, out) (Free p) = Some (Heap_free hs hb S h p, removeAll p out)"

fun run :: "addr \<Rightarrow> addr \<Rightarrow> addr \<Rightarrow> 'm state \<times> addr list \<Rightarrow> call list \<Rightarrow> ('m state \<times> addr list) option" where
  "run hs hb h \<sigma> [] = Some \<sigma>"
| "run hs hb h \<sigma> (c # cs) =
     (case step hs hb h \<sigma> c of None \<Rightarrow> None | Some \<sigma>' \<Rightarrow> run hs hb h \<sigma>' cs)"

text \<open>
  A call is permitted when it allocates, frees null, or frees an outstanding allocation;
  a sequence is legal from a state when each of its calls is permitted in the state in
  which it is made.
\<close>

fun permitted :: "addr list \<Rightarrow> call \<Rightarrow> bool" where
  "permitted out (Allocate n) \<longleftrightarrow> True"
| "permitted out (Free p) \<longleftrightarrow> p = 0 \<or> p \<in> set out"

fun legal :: "addr \<Rightarrow> addr \<Rightarrow> addr \<Rightarrow> 'm state \<times> addr list \<Rightarrow> call list \<Rightarrow> bool" where
  "legal hs hb h \<sigma> [] \<longleftrightarrow> True"
| "legal hs hb h \<sigma> (c # cs) \<longleftrightarrow>
     permitted (snd \<sigma>) c
     \<and> (case step hs hb h \<sigma> c of None \<Rightarrow> True | Some \<sigma>' \<Rightarrow> legal hs hb h \<sigma>' cs)"

text \<open>
  The invariant of a heap: its key, the invariant of its chain over the memory from the
  first block to the end of the usable size, and the outstanding allocations being the
  payloads of the used blocks.
\<close>

definition heap_inv :: "addr \<Rightarrow> addr \<Rightarrow> 'm state \<Rightarrow> addr \<Rightarrow> addr list \<Rightarrow> addr list \<Rightarrow> bool" where
  "heap_inv hs hb S h bs out \<longleftrightarrow>
     data_key (heaps S h) = HEAP_KEY
     \<and> chain_inv hb (blocks S) h (getFirstBlock hs h)
          (unat (getFirstBlock hs h) + unat (data_size (heaps S h))) bs
     \<and> distinct out \<and> set out = data hb ` used_blocks (blocks S) bs"

text \<open>
  The arguments of an installation describe memory: the range from \<open>ptr\<close> of \<open>isize\<close>
  bytes lies below the top of the address space and holds the heap object, and the size
  of a block header is not zero and not within sixteen bytes of the top.
\<close>

definition region_ok :: "addr \<Rightarrow> addr \<Rightarrow> addr \<Rightarrow> addr \<Rightarrow> bool" where
  "region_ok hs hb ptr isize \<longleftrightarrow>
     hb \<noteq> 0 \<and> unat hb + 16 < 2 ^ 64 \<and> unat hs \<le> unat (isize AND NOT 7)
     \<and> unat ptr + unat isize < 2 ^ 64"

text \<open>The blocks that following \<^verbatim>\<open>next_\<close> from \<open>x\<close> visits before it reaches null.\<close>

primrec chain :: "(addr \<Rightarrow> HeapBlock) \<Rightarrow> addr \<Rightarrow> addr list \<Rightarrow> bool" where
  "chain B x [] \<longleftrightarrow> x = 0"
| "chain B x (b # bs) \<longleftrightarrow> x = b \<and> b \<noteq> 0 \<and> chain B (next_b (B b)) bs"

subsection \<open>Example installations and call sequences\<close>

text \<open>
  \<open>ex_fresh\<close> is the state that \<^verbatim>\<open>new (0x1000) Heap(0x400)\<close> leaves, on memory that
  holds writes and from a state without any key: the heap object at \<open>0x1000\<close> and one
  free block at \<open>0x1030\<close>.
\<close>

definition ex_init :: "(addr \<Rightarrow> cell) state" where
  "ex_init = \<lparr>cells = (\<lambda>a. 0), blocks = (\<lambda>a. ex_junk),
     heaps = (\<lambda>a. \<lparr>data_block = 0, data_toggle = 0, data_size = 0, data_key = 0\<rparr>),
     toggle_ptrs = (\<lambda>a. 0), irq = (\<lambda>a. False)\<rparr>"

definition ex_fresh :: "(addr \<Rightarrow> cell) state" where
  "ex_fresh = snd (install ram 48 48 ex_init 0x1000 0x400)"

text \<open>
  Sequences of calls on that heap. In \<open>ex_calls\<close> and \<open>ex_calls2\<close> every \<^verbatim>\<open>free\<close> is
  of an outstanding allocation. \<open>ex_double_free\<close> frees the allocation at \<open>0x10a0\<close>
  twice and allocates afterwards. The states they end in are named.
\<close>

definition ex_calls :: "call list" where
  "ex_calls = [Allocate 16, Allocate 64, Free 0x1060, Allocate 8, Free 0x10a0]"

definition ex_calls2 :: "call list" where
  "ex_calls2 = [Allocate 16, Allocate 64, Free 0x1060]"

definition ex_double_free :: "call list" where
  "ex_double_free = [Allocate 16, Allocate 64, Allocate 64, Free 0x10a0, Free 0x1060, Free 0x10a0,
     Allocate 176]"

definition ex_allocs :: "addr list" where
  "ex_allocs = [16, 64, 64]"

definition ex_three :: "(addr \<Rightarrow> cell) state" where
  "ex_three = fst (the (run 48 48 0x1000 (ex_fresh, []) (map Allocate ex_allocs)))"

definition ex_mid :: "(addr \<Rightarrow> cell) state" where
  "ex_mid = fst (the (run 48 48 0x1000 (ex_fresh, []) ex_calls2))"

definition ex_last :: "(addr \<Rightarrow> cell) state" where
  "ex_last = fst (the (Heap_allocate 48 48 ex_mid 0x1000 5 0))"

definition ex_broken :: "(addr \<Rightarrow> cell) state" where
  "ex_broken = fst (the (run 48 48 0x1000 (ex_fresh, []) ex_double_free))"

section \<open>Basic facts\<close>

lemma isUsed_simps [simp]:
  "isUsed (b\<lparr>attr_b := a OR ATTR_USED\<rparr>)"
  "\<not> isUsed (b\<lparr>attr_b := a AND NOT ATTR_USED\<rparr>)"
  "isUsed (b\<lparr>size_b := s\<rparr>) = isUsed b"
  "isUsed (b\<lparr>next_b := x\<rparr>) = isUsed b"
  "isUsed (b\<lparr>prev_b := x\<rparr>) = isUsed b"
  "\<not> isUsed (HeapBlock_ctor hb h s)"
  by (simp_all add: isUsed_def ATTR_USED_def word_ao_absorbs word_bw_assocs HeapBlock_ctor_def)

lemma alloc_result:
  assumes "alloc hb B this n = Some (B', p)" and "p \<noteq> 0"
  shows "alloc_scan B (align8 n) this = Some (heapBlock hb p) \<and> heapBlock hb p \<noteq> 0
    \<and> p = data hb (heapBlock hb p) \<and> isUsed (B' (heapBlock hb p))"
  using assms
  by (auto simp: alloc_def Let_def heapBlock_def data_def split: if_splits option.splits)

lemma disable_frame:
  "blocks (snd (disable S this)) = blocks S"
  "heaps (snd (disable S this)) = heaps S"
  "toggle_ptrs (snd (disable S this)) = toggle_ptrs S"
  "cells (snd (disable S this)) = cells S"
  by (simp_all add: disable_def Let_def Toggle_disable_def)

lemma enable_disable:
  "enable ((snd (disable S this))\<lparr>blocks := B\<rparr>) this (fst (disable S this)) = S\<lparr>blocks := B\<rparr>"
  by (simp add: disable_def enable_def Let_def Toggle_disable_def Toggle_enable_def fun_upd_idem)

lemma enable_disable_same:
  "enable (snd (disable S this)) this (fst (disable S this)) = S"
  by (simp add: disable_def enable_def Let_def Toggle_disable_def Toggle_enable_def fun_upd_idem)

lemma canDelete_disable:
  "canDelete hs (snd (disable S this)) b = canDelete hs S b"
  by (simp add: canDelete_def Heap_isConstructed_def disable_frame)

text \<open>
  What \<^verbatim>\<open>Heap::free\<close> and \<^verbatim>\<open>Heap::allocate\<close> do once the toggle has been disabled and
  enabled again.
\<close>

lemma Heap_free_eq:
  "Heap_free hs hb S this ptr =
     (if ptr \<noteq> 0 \<and> Heap_isConstructed hs S this \<and> canDelete hs S (heapBlock hb ptr)
      then S\<lparr>blocks := free_switch hb (blocks S) (heapBlock hb ptr)\<rparr> else S)"
  by (simp add: Heap_free_def free_def split_beta Let_def canDelete_disable disable_frame
      enable_disable enable_disable_same)

lemma Heap_allocate_eq:
  "Heap_allocate hs hb S this sz ptr =
     (if \<not> Heap_isConstructed hs S this then Some (S, 0)
      else if ptr \<noteq> 0 then Some (S, ptr)
      else case alloc hb (blocks S) (getFirstBlock hs this) sz of
             None \<Rightarrow> None
           | Some (B, p) \<Rightarrow> Some (S\<lparr>blocks := B\<rparr>, p))"
  by (simp add: Heap_allocate_def split_beta Let_def disable_frame enable_disable
      split: option.splits)

lemma ex_alloc_16:
  "alloc 48 ex_B 0x1030 16 = Some
     (ex_B(0x1070 := \<lparr>heap_b = 0x1000, prev_b = 0x1030, next_b = 0, attr_b = 0,
                       size_b = 0x360, key_b = BLOCK_KEY\<rparr>,
           0x1030 := \<lparr>heap_b = 0x1000, prev_b = 0, next_b = 0x1070, attr_b = 1,
                       size_b = 16, key_b = BLOCK_KEY\<rparr>), 0x1060)"
  by (simp add: alloc_def align8_def alloc_scan.simps ex_B_def ex_junk_def isUsed_def
      ATTR_USED_def HeapBlock_new_def next_at_def HeapBlock_ctor_def data_def Let_def)

lemma ex_S_constructed: "Heap_isConstructed 48 ex_S 0x1000"
  by (simp add: Heap_isConstructed_def ex_S_def ex_H_def ex_B_def getFirstBlock_def
      isConstructed_def)

subsection \<open>The loops of the memory test\<close>

declare fill_loop.simps [simp del] check_loop.simps [simp del]

lemma unat_inc: "i < (sz :: addr) \<Longrightarrow> unat (i + 1) = unat i + 1"
  using unsigned_less [of sz, where 'a = nat]
  by (simp add: unat_word_ariths word_less_nat_alt)

lemma check_loop_iff:
  "check_loop d ptr pat sz i m \<longleftrightarrow> (\<forall>k. i \<le> k \<and> k < sz \<longrightarrow> rd d m (ptr + k) = pat k)"
proof (induction d ptr pat sz i m rule: check_loop.induct)
  case (1 d ptr pat sz i m)
  show ?case
  proof (cases "i < sz")
    case True
    have split: "i \<le> k \<longleftrightarrow> k = i \<or> i + 1 \<le> k" for k
      using unat_inc [OF True] by (auto simp: word_le_nat_alt word_unat_eq_iff)
    show ?thesis
      using True "1.IH" [OF True]
      by (subst check_loop.simps) (auto simp: split)
  next
    case False
    then show ?thesis
      by (subst check_loop.simps) auto
  qed
qed

lemma fill_loop_foldl:
  "fill_loop d ptr pat sz i m =
     foldl (\<lambda>m k. wr d m (ptr + of_nat k) (pat (of_nat k))) m [unat i..<unat sz]"
proof (induction d ptr pat sz i m rule: fill_loop.induct)
  case (1 d ptr pat sz i m)
  show ?case
  proof (cases "i < sz")
    case True
    then have "[unat i..<unat sz] = unat i # [unat (i + 1)..<unat sz]"
      using unat_inc [OF True] by (simp add: upt_conv_Cons word_less_nat_alt)
    then show ?thesis
      using True "1.IH" [OF True] by (subst fill_loop.simps) simp
  next
    case False
    then show ?thesis
      by (subst fill_loop.simps) (simp add: word_less_nat_alt)
  qed
qed

lemma pat_simps:
  "pat_value = (\<lambda>i. ucast i)" "pat_55 = (\<lambda>i. 0x55)" "pat_aa = (\<lambda>i. 0xAA)" "pat_zero = (\<lambda>i. 0)"
  by (simp_all add: pat_value_def pat_55_def pat_aa_def pat_zero_def mask_c_def fun_eq_iff)

lemma isMemoryAvailable_eq:
  "isMemoryAvailable d m ptr sz =
    (let W = (\<lambda>pat m0. foldl (\<lambda>m k. wr d m (ptr + of_nat k) (pat (of_nat k :: addr))) m0
                [0..<unat sz]);
         OK = (\<lambda>pat m0. \<forall>i. i < sz \<longrightarrow> rd d m0 (ptr + i) = pat i);
         m1 = W (\<lambda>i. ucast i) m;
         m2 = W (\<lambda>i. 0x55) m1;
         m3 = W (\<lambda>i. 0xAA) m2;
         m4 = W (\<lambda>i. 0x00) m3
     in if \<not> OK (\<lambda>i. ucast i) m1 then (False, m1)
        else if \<not> OK (\<lambda>i. 0x55) m2 then (False, m2)
        else if \<not> OK (\<lambda>i. 0xAA) m3 then (False, m3)
        else if \<not> OK (\<lambda>i. 0x00) m4 then (False, m4)
        else (True, m4))"
proof -
  have c0: "check_loop d ptr pat sz 0 m0 \<longleftrightarrow> (\<forall>i. i < sz \<longrightarrow> rd d m0 (ptr + i) = pat i)"
    for pat m0
    by (simp add: check_loop_iff)
  have f0: "fill_loop d ptr pat sz 0 m0 =
      foldl (\<lambda>m k. wr d m (ptr + of_nat k) (pat (of_nat k))) m0 [0..<unat sz]" for pat m0
    by (simp add: fill_loop_foldl)
  show ?thesis
    by (simp only: isMemoryAvailable_def Let_def c0 f0 pat_simps)
qed

lemma foldl_writes_read:
  assumes "holds_writes d" and "n \<le> 2 ^ 64" and "j < n"
  shows "rd d (foldl (\<lambda>m k. wr d m (ptr + of_nat k) (pat (of_nat k :: addr))) m0 [0..<n])
      (ptr + of_nat j) = pat (of_nat j)"
  using assms(2,3)
proof (induction n)
  case 0
  then show ?case by simp
next
  case (Suc n)
  show ?case
  proof (cases "j = n")
    case True
    then show ?thesis using assms(1) by (simp add: holds_writes_def)
  next
    case False
    with Suc.prems have jn: "j < n" "n < 2 ^ 64" by simp_all
    then have "(of_nat j :: addr) \<noteq> of_nat n"
      by (simp add: word_of_nat_eq_iff take_bit_nat_eq_self)
    with Suc.IH jn show ?thesis using assms(1) by (simp add: holds_writes_def)
  qed
qed

text \<open>On memory that holds what was written the test succeeds for every range.\<close>

lemma holds_writes_passes:
  assumes "holds_writes d"
  shows "fst (isMemoryAvailable d m ptr sz) = True"
proof -
  have r: "rd d (foldl (\<lambda>m k. wr d m (ptr + of_nat k) (pat (of_nat k :: addr))) m0
      [0..<unat sz]) (ptr + i) = pat i"
    if "i < sz" for pat m0 i
  proof -
    have "unat i < unat sz" using that by (simp add: word_less_nat_alt)
    moreover have "unat sz \<le> 2 ^ 64" using unsigned_less [of sz, where 'a = nat] by simp
    ultimately show ?thesis
      using foldl_writes_read [OF assms, where n = "unat sz" and j = "unat i" and ptr = ptr
          and pat = pat and ?m0.0 = m0]
      by simp
  qed
  have ok: "(\<forall>i. i < sz \<longrightarrow> rd d (foldl (\<lambda>m k. wr d m (ptr + of_nat k) (pat (of_nat k :: addr)))
      m0 [0..<unat sz]) (ptr + i) = pat i) = True" for pat m0
    using r by simp
  have "isMemoryAvailable d m ptr sz = (True, snd (isMemoryAvailable d m ptr sz))"
    by (subst (1 2) isMemoryAvailable_eq [unfolded Let_def])
      (simp only: ok [of "\<lambda>i. ucast i"] ok [of "\<lambda>i. 0x55"] ok [of "\<lambda>i. 0xAA"]
        ok [of "\<lambda>i. 0x00"] not_True_eq_False if_False snd_conv)
  then show ?thesis
    by (metis fst_conv)
qed

lemma ram_holds_writes: "holds_writes ram"
  by (simp add: holds_writes_def ram_def)

subsection \<open>The cases of free\<close>

lemma sibling_consts: "PREV_FREE OR NEXT_FREE = 3" "PREV_FREE = 2" "NEXT_FREE = 1"
  by (simp_all add: PREV_FREE_def NEXT_FREE_def)

lemma upd_fields [simp]:
  "prev_b r = prev_b (B a) \<Longrightarrow> prev_b ((B(a := r)) x) = prev_b (B x)"
  "next_b r = next_b (B a) \<Longrightarrow> next_b ((B(a := r)) x) = next_b (B x)"
  "size_b r = size_b (B a) \<Longrightarrow> size_b ((B(a := r)) x) = size_b (B x)"
  "attr_b r = attr_b (B a) \<Longrightarrow> attr_b ((B(a := r)) x) = attr_b (B x)"
  "attr_b r = attr_b (B a) \<Longrightarrow> isUsed ((B(a := r)) x) = isUsed (B x)"
  "key_b r = key_b (B a) \<Longrightarrow> key_b ((B(a := r)) x) = key_b (B x)"
  "heap_b r = heap_b (B a) \<Longrightarrow> heap_b ((B(a := r)) x) = heap_b (B x)"
  by (simp_all add: isUsed_def)

lemma free_switch_eq:
  "free_switch hb B b =
    (if prev_free B b \<and> next_free B b then merge_both hb B b
     else if prev_free B b then merge_prev hb B b
     else if next_free B b then merge_next hb B b
     else B(b := (B b)\<lparr>attr_b := attr_b (B b) AND NOT ATTR_USED\<rparr>))"
proof -
  have pf: "(prev_b (B b) \<noteq> 0 \<and> \<not> isUsed (B (prev_b (B b)))) = prev_free B b"
    by (simp add: prev_free_def)
  have nf: "(next_b (B b) \<noteq> 0 \<and> \<not> isUsed (B (next_b (B b)))) = next_free B b"
    by (simp add: next_free_def)
  show ?thesis
  proof (cases "prev_free B b")
    case True
    note p = this
    show ?thesis
    proof (cases "next_free B b")
      case True
      show ?thesis
        unfolding free_switch_def pf nf merge_both_def Let_def
        using p True by (simp del: fun_upd_apply add: fun_upd_same sibling_consts)
    next
      case False
      have "next_b ((B(prev_b (B b) := r\<lparr>next_b := next_b (B b)\<rparr>)) b) = next_b (B b)" for r
        by simp
      then show ?thesis
        unfolding free_switch_def pf nf merge_prev_def Let_def
        using p False by (simp del: fun_upd_apply add: fun_upd_same sibling_consts)
    qed
  next
    case False
    note p = this
    show ?thesis
    proof (cases "next_free B b")
      case True
      show ?thesis
        unfolding free_switch_def pf nf merge_next_def Let_def
        using p True by (simp del: fun_upd_apply add: fun_upd_same sibling_consts)
    next
      case False
      show ?thesis
        unfolding free_switch_def pf nf Let_def
        using p False by (simp del: fun_upd_apply add: fun_upd_same sibling_consts)
    qed
  qed
qed

lemma ex_S3_canDelete: "canDelete 48 (ex_S3 u1 u2 u3) 0x1070"
  by (simp add: canDelete_def Heap_isConstructed_def ex_S3_def ex_chain_def ex_H_def
      isConstructed_def getFirstBlock_def)

lemma ex_chain_simps:
  "prev_b (ex_chain u1 u2 u3 0x1070) = 0x1030" "next_b (ex_chain u1 u2 u3 0x1070) = 0x10c0"
  "next_b (ex_chain u1 u2 u3 0x10c0) = 0"
  "isUsed (ex_chain u1 u2 u3 0x1030) = u1" "isUsed (ex_chain u1 u2 u3 0x10c0) = u3"
  "size_b (ex_chain u1 u2 u3 0x1030) = 0x10" "size_b (ex_chain u1 u2 u3 0x1070) = 0x20"
  "size_b (ex_chain u1 u2 u3 0x10c0) = 0x310"
  by (simp_all add: ex_chain_def isUsed_def ATTR_USED_def)

subsection \<open>Words and alignment\<close>

lemma dvd8_and7: "8 dvd unat (w :: addr) \<longleftrightarrow> w AND 7 = 0"
  using and_mask_dvd_nat [of 3 w] by (simp add: mask_eq_exp_minus_1)

lemma unat_add_small: "unat (a :: addr) + unat b < 2 ^ 64 \<Longrightarrow> unat (a + b) = unat a + unat b"
  by (rule unat_add_lem [THEN iffD1]) simp

lemma align8_dvd: "8 dvd unat (align8 n)"
proof (cases "n AND 7 = 0")
  case True
  then show ?thesis by (simp add: align8_def dvd8_and7)
next
  case False
  have "(n AND NOT 7) AND 7 = 0"
    by (simp add: word_bw_assocs)
  then have "8 dvd unat (n AND NOT 7)"
    by (simp add: dvd8_and7)
  then have "8 dvd (unat (n AND NOT 7) + 8) mod 2 ^ 64"
    by (simp add: dvd_mod)
  then have "8 dvd unat ((n AND NOT 7) + 8)"
    by (simp add: unat_word_ariths)
  with False show ?thesis by (simp add: align8_def)
qed

lemma and_not7_eq: "(n :: addr) AND NOT 7 = n - (n AND 7)"
proof -
  have "n - (n AND 7) = n AND NOT (n AND 7)"
    by (rule disjunctive_diff_eq_and_not) (auto simp: bit_eq_iff bit_simps)
  also have "\<dots> = n AND NOT 7"
    by (auto simp: bit_eq_iff bit_simps)
  finally show ?thesis by simp
qed

lemma unat_and_not7: "unat ((n :: addr) AND NOT 7) = unat n - unat (n AND 7) \<and> unat (n AND 7) \<le> 7
    \<and> unat (n AND 7) \<le> unat n"
proof -
  have le: "n AND 7 \<le> n" by (rule word_and_le2)
  have "n AND 7 \<le> 7" by (rule word_and_le1)
  then have "unat (n AND 7) \<le> 7" by (simp add: word_le_nat_alt)
  moreover have "unat (n AND NOT 7) = unat (n - (n AND 7))"
    by (simp only: and_not7_eq)
  moreover have "unat (n - (n AND 7)) = unat n - unat (n AND 7)"
    using le by (rule unat_sub)
  moreover have "unat (n AND 7) \<le> unat n"
    using le by (simp add: word_le_nat_alt)
  ultimately show ?thesis by simp
qed

lemma align8_bounds:
  "unat (align8 n) \<le> unat n + 7"
  "unat n \<le> 2 ^ 64 - 8 \<Longrightarrow> unat n \<le> unat (align8 n)"
  "unat n \<le> 2 ^ 64 - 8 \<Longrightarrow> n \<noteq> 0 \<Longrightarrow> align8 n \<noteq> 0"
proof -
  have z: "n AND 7 \<noteq> 0 \<Longrightarrow> 0 < unat (n AND 7)"
    by (simp add: unat_gt_0)
  have m: "unat ((n AND NOT 7) + 8) = (unat (n AND NOT 7) + 8) mod 2 ^ 64"
    by (simp add: unat_word_ariths)
  have le: "(unat (n AND NOT 7) + 8) mod 2 ^ 64 \<le> unat (n AND NOT 7) + 8"
    by (rule mod_less_eq_dividend)
  show "unat (align8 n) \<le> unat n + 7"
    using unat_and_not7 [of n] z m le by (auto simp: align8_def)
  show "unat n \<le> unat (align8 n)" if "unat n \<le> 2 ^ 64 - 8"
  proof (cases "n AND 7 = 0")
    case True
    then show ?thesis by (simp add: align8_def)
  next
    case False
    have "unat (n AND NOT 7) + 8 < 2 ^ 64"
      using unat_and_not7 [of n] z [OF False] that by simp
    then have "unat ((n AND NOT 7) + 8) = unat (n AND NOT 7) + 8"
      using m by simp
    moreover have "unat (n AND NOT 7) + 8 = unat n + 8 - unat (n AND 7)"
      using unat_and_not7 [of n] by linarith
    moreover have "unat n \<le> unat n + 8 - unat (n AND 7)"
      using unat_and_not7 [of n] by linarith
    ultimately have "unat n \<le> unat ((n AND NOT 7) + 8)"
      by simp
    then show ?thesis
      using False by (simp add: align8_def)
  qed
  then show "align8 n \<noteq> 0" if "unat n \<le> 2 ^ 64 - 8" "n \<noteq> 0"
    using that by (auto simp: unat_gt_0 [symmetric] simp del: unat_gt_0)
qed

lemma hb_ge8: "hb \<noteq> 0 \<Longrightarrow> 8 dvd unat (hb :: addr) \<Longrightarrow> 8 \<le> unat hb"
  by (auto simp: unat_gt_0 [symmetric] dvd_def simp del: unat_gt_0)

subsection \<open>Lists of used flags\<close>

lemma naf_Cons:
  "no_adjacent_free (u # vs) \<longleftrightarrow> no_adjacent_free vs \<and> (vs = [] \<or> u \<or> hd vs)"
  by (cases vs) auto

lemma naf_append:
  "no_adjacent_free (us @ vs) \<longleftrightarrow>
     no_adjacent_free us \<and> no_adjacent_free vs \<and> (us = [] \<or> vs = [] \<or> last us \<or> hd vs)"
  by (induction us) (auto simp: naf_Cons)

lemma naf_all_free:
  "no_adjacent_free us \<Longrightarrow> \<forall>u \<in> set us. \<not> u \<Longrightarrow> length us \<le> 1"
  by (induction us rule: no_adjacent_free.induct) auto

subsection \<open>Chains\<close>

lemma lay_cong:
  "(\<And>b. b \<in> set bs \<Longrightarrow> size_b (B' b) = size_b (B b) \<and> key_b (B' b) = key_b (B b)
      \<and> heap_b (B' b) = heap_b (B b) \<and> prev_b (B' b) = prev_b (B b) \<and> next_b (B' b) = next_b (B b))
   \<Longrightarrow> lay hb B' h p x a bs y e = lay hb B h p x a bs y e"
  by (induction bs arbitrary: p x a) auto

lemma lay_frame:
  "(\<And>b. b \<in> set bs \<Longrightarrow> B' b = B b) \<Longrightarrow> lay hb B' h p x a bs y e = lay hb B h p x a bs y e"
  by (rule lay_cong) simp

lemma lay_append:
  "lay hb B h p x a (xs @ ys) y e \<longleftrightarrow>
     (\<exists>x' a'. lay hb B h p x a xs x' a' \<and> lay hb B h (last (p # xs)) x' a' ys y e)"
  by (induction xs arbitrary: p x a) auto

lemma lay_bounds:
  "lay hb B h p x a bs y e \<Longrightarrow> a \<le> e \<and> (\<forall>b \<in> set bs. a \<le> unat b \<and> unat b + unat hb \<le> e)"
proof (induction bs arbitrary: p x a)
  case Nil
  then show ?case by simp
next
  case (Cons b bs)
  then show ?case by fastforce
qed

lemma lay_above:
  assumes "lay hb B h p x a (b # bs) y e" and "hb \<noteq> 0"
  shows "\<forall>c \<in> set bs. unat b < unat c"
proof -
  have "0 < unat hb" using assms(2) by (simp add: unat_gt_0)
  moreover have "\<forall>c \<in> set bs. unat b + unat hb + unat (size_b (B b)) \<le> unat c"
    using assms(1) lay_bounds [of hb B h b "next_b (B b)" "unat b + unat hb + unat (size_b (B b))" bs y e]
    by auto
  ultimately show ?thesis by fastforce
qed

lemma lay_next:
  "lay hb B h p x a bs 0 e \<Longrightarrow> x \<noteq> 0 \<Longrightarrow> x \<in> set bs"
  by (cases bs) auto

lemma lay_next_of:
  "lay hb B h p x a (b # ys) 0 e \<Longrightarrow> next_b (B b) = (case ys of [] \<Rightarrow> 0 | y # ys' \<Rightarrow> y)"
  by (cases ys) auto

lemma lay_hd: "lay hb B h p x a bs y e \<Longrightarrow> bs \<noteq> [] \<Longrightarrow> hd bs = x"
  by (cases bs) auto

lemma lay_elem:
  "lay hb B h p x a bs y e \<Longrightarrow> b \<in> set bs \<Longrightarrow>
     b \<noteq> 0 \<and> 8 dvd unat b \<and> 8 dvd unat (size_b (B b))
     \<and> unat b + unat hb + unat (size_b (B b)) \<le> e
     \<and> key_b (B b) = BLOCK_KEY \<and> heap_b (B b) = h"
proof (induction bs arbitrary: p x a)
  case Nil
  then show ?case by simp
next
  case (Cons c bs)
  then have L: "lay hb B h c (next_b (B c)) (a + unat hb + unat (size_b (B c))) bs y e"
    by simp
  show ?case
  proof (cases "b = c")
    case True
    then show ?thesis using Cons.prems(1) lay_bounds [OF L] by auto
  next
    case False
    then show ?thesis using Cons.IH [OF L] Cons.prems(2) by simp
  qed
qed

lemma lay_distinct:
  "lay hb B h p x a bs y e \<Longrightarrow> hb \<noteq> 0 \<Longrightarrow> distinct bs \<and> 0 \<notin> set bs"
proof (induction bs arbitrary: p x a)
  case Nil
  then show ?case by simp
next
  case (Cons b bs)
  then have L: "lay hb B h b (next_b (B b)) (a + unat hb + unat (size_b (B b))) bs y e"
    and b: "b \<noteq> 0" by simp_all
  have "b \<notin> set bs" using lay_above [OF Cons.prems] by auto
  with Cons.IH [OF L Cons.prems(2)] b show ?case by auto
qed

lemma lay_scan:
  "lay hb B h p x a bs 0 e \<Longrightarrow>
     alloc_scan B sz x = Some (case find (fits B sz) bs of None \<Rightarrow> 0 | Some c \<Rightarrow> c)"
proof (induction bs arbitrary: p x a)
  case Nil
  then show ?case by (simp add: alloc_scan.simps)
next
  case (Cons b bs)
  then have "lay hb B h b (next_b (B b)) (a + unat hb + unat (size_b (B b))) bs 0 e" "x = b" "b \<noteq> 0"
    by simp_all
  moreover have "fits B sz b \<longleftrightarrow> \<not> isUsed (B b) \<and> \<not> size_b (B b) < sz"
    by (simp add: fits_def)
  ultimately show ?case
    using Cons.IH by (subst alloc_scan.simps) auto
qed

lemma lay_span:
  assumes "lay hb B h p x a ds y e" and "e < 2 ^ 64" and "8 dvd unat hb"
  shows "unat (foldr (\<lambda>d s. hb + size_b (B d) + s) ds 0) = e - a \<and> a \<le> e
     \<and> 8 dvd (e - a)"
  using assms(1)
proof (induction ds arbitrary: p x a)
  case Nil
  then show ?case by simp
next
  case (Cons d ds)
  let ?a' = "a + unat hb + unat (size_b (B d))"
  let ?r = "foldr (\<lambda>d s. hb + size_b (B d) + s) ds 0"
  from Cons.prems have L: "lay hb B h d (next_b (B d)) ?a' ds y e" and d: "8 dvd unat (size_b (B d))"
    by simp_all
  from Cons.IH [OF L] have r: "unat ?r = e - ?a'" "?a' \<le> e" "8 dvd (e - ?a')"
    by simp_all
  have 1: "unat (hb + size_b (B d)) = unat hb + unat (size_b (B d))"
    using r(2) assms(2) by (intro unat_add_small) simp
  have 2: "unat (hb + size_b (B d) + ?r) = unat (hb + size_b (B d)) + unat ?r"
    using r(1,2) 1 assms(2) by (intro unat_add_small) simp
  have "e - a = unat hb + unat (size_b (B d)) + (e - ?a')"
    using r(2) by simp
  moreover have "8 dvd unat hb + unat (size_b (B d)) + (e - ?a')"
    using assms(3) d r(3) by simp
  ultimately show ?case
    using 1 2 r by simp
qed

subsection \<open>alloc keeps the invariant\<close>

lemma alloc_none:
  assumes "sz0 \<noteq> 0" and "alloc_scan B (align8 sz0) this = Some 0"
  shows "alloc hb B this sz0 = Some (B, 0)"
  using assms by (simp add: alloc_def)

lemma alloc_nosplit:
  assumes "sz0 \<noteq> 0" and "alloc_scan B (align8 sz0) this = Some c" and "c \<noteq> 0"
    and "\<not> align8 sz0 + hb \<le> size_b (B c)"
  shows "alloc hb B this sz0 = Some (B(c := (B c)\<lparr>attr_b := attr_b (B c) OR ATTR_USED\<rparr>), c + hb)"
  using assms by (simp add: alloc_def data_def)

lemma alloc_split:
  assumes "sz0 \<noteq> 0" and "alloc_scan B (align8 sz0) this = Some c" and "c \<noteq> 0"
    and "align8 sz0 + hb \<le> size_b (B c)"
    and "HeapBlock_new hb (c + hb + align8 sz0) = c + hb + align8 sz0"
    and "c + hb + align8 sz0 \<noteq> 0" and "c + hb + align8 sz0 \<noteq> c"
  shows "alloc hb B this sz0 = Some (split_at hb B (heap_b (B this)) c (align8 sz0), c + hb)"
  using assms
  by (simp add: alloc_def Let_def next_at_def data_def split_at_def HeapBlock_ctor_def
      fun_upd_same fun_upd_other del: fun_upd_apply)

lemma split_at_points:
  assumes "c + hb + sz \<noteq> c" and "next_b (B c) \<noteq> c" and "next_b (B c) \<noteq> c + hb + sz"
  shows "split_at hb B h c sz c = (B c)\<lparr>next_b := c + hb + sz, size_b := sz, attr_b := attr_b (B c) OR ATTR_USED\<rparr>"
    and "split_at hb B h c sz (c + hb + sz) = \<lparr>heap_b = h, prev_b = c, next_b = next_b (B c), attr_b = 0,
                      size_b = size_b (B c) - sz - hb, key_b = BLOCK_KEY\<rparr>"
    and "next_b (B c) \<noteq> 0 \<Longrightarrow> split_at hb B h c sz (next_b (B c)) = (B (next_b (B c)))\<lparr>prev_b := c + hb + sz\<rparr>"
    and "\<And>b. b \<noteq> c \<Longrightarrow> b \<noteq> c + hb + sz \<Longrightarrow> b \<noteq> next_b (B c) \<or> next_b (B c) = 0 \<Longrightarrow> split_at hb B h c sz b = B b"
  using assms by (auto simp: split_at_def Let_def)

lemma split_at_lay:
  assumes L: "lay hb B h p x a (xs @ c # ys) 0 e"
    and hb: "hb \<noteq> 0" "8 dvd unat hb" and e: "e < 2 ^ 64"
    and sz: "8 dvd unat sz" and fit: "unat sz + unat hb \<le> unat (size_b (B c))"
  shows "lay hb (split_at hb B h c sz) h p x a (xs @ c # (c + hb + sz) # ys) 0 e"
    and "\<forall>b \<in> set xs \<union> set ys. isUsed (split_at hb B h c sz b) = isUsed (B b)"
    and "isUsed (split_at hb B h c sz c)" and "\<not> isUsed (split_at hb B h c sz (c + hb + sz))"
    and "c + hb + sz \<notin> set (xs @ c # ys)"
proof -
  define N where "N = c + hb + sz"
  define n where "n = next_b (B c)"
  define B' where "B' = split_at hb B h c sz"
  define a' where "a' = unat c"
  have hb0: "0 < unat hb" using hb(1) by (simp add: unat_gt_0)
  from L obtain x' where L1: "lay hb B h p x a xs x' a'"
    and L2: "lay hb B h (last (p # xs)) x' a' (c # ys) 0 e"
    unfolding lay_append a'_def by auto
  from L2 have c: "x' = c" "c \<noteq> 0" "8 dvd a'" "8 dvd unat (size_b (B c))"
    "key_b (B c) = BLOCK_KEY" "heap_b (B c) = h" "prev_b (B c) = last (p # xs)"
    and L3: "lay hb B h c n (a' + unat hb + unat (size_b (B c))) ys 0 e"
    by (simp_all add: n_def a'_def)
  have end_le: "a' + unat hb + unat (size_b (B c)) \<le> e"
    and ys_ge: "\<forall>b \<in> set ys. a' + unat hb + unat (size_b (B c)) \<le> unat b"
    using lay_bounds [OF L3] by auto
  have xs_lt: "\<forall>b \<in> set xs. unat b < unat c"
    using lay_bounds [OF L1] hb0 by (fastforce simp: a'_def)
  have uN: "unat N = a' + unat hb + unat sz"
  proof -
    have "unat (c + hb) = unat c + unat hb"
      using end_le e by (intro unat_add_small) (simp add: a'_def)
    moreover have "unat (c + hb + sz) = unat (c + hb) + unat sz"
      using end_le e fit calculation by (intro unat_add_small) (simp add: a'_def)
    ultimately show ?thesis by (simp add: N_def a'_def)
  qed
  have usz: "unat (size_b (B c) - sz - hb) = unat (size_b (B c)) - unat sz - unat hb"
  proof -
    have 1: "sz \<le> size_b (B c)" using fit by (simp add: word_le_nat_alt)
    then have 2: "unat (size_b (B c) - sz) = unat (size_b (B c)) - unat sz"
      by (simp add: unat_sub)
    then have "hb \<le> size_b (B c) - sz" using fit by (simp add: word_le_nat_alt)
    then show ?thesis using 2 by (simp add: unat_sub)
  qed
  have Nc: "N \<noteq> c" using uN hb0 by (auto simp: a'_def)
  have nys: "n \<noteq> 0 \<longrightarrow> n \<in> set ys" using lay_next [OF L3] by blast
  have n_ge: "n \<noteq> 0 \<longrightarrow> a' + unat hb + unat (size_b (B c)) \<le> unat n"
    using nys ys_ge by auto
  have nc: "n \<noteq> c"
  proof (cases "n = 0")
    case True
    then show ?thesis using c(2) by simp
  next
    case False
    then show ?thesis using n_ge hb0 by (auto simp: a'_def)
  qed
  have nN: "n \<noteq> N"
  proof (cases "n = 0")
    case True
    then show ?thesis using uN hb0 by (auto simp: unat_eq_zero [symmetric])
  next
    case False
    then show ?thesis using n_ge uN fit hb0 by auto
  qed
  note pts = split_at_points [where c = c and hb = hb and sz = sz and B = B and h = h,
      folded N_def n_def B'_def, OF Nc nc nN]
  have B'c: "B' c = (B c)\<lparr>next_b := N, size_b := sz, attr_b := attr_b (B c) OR ATTR_USED\<rparr>"
    by (rule pts(1))
  have B'N: "B' N = \<lparr>heap_b = h, prev_b = c, next_b = n, attr_b = 0,
                      size_b = size_b (B c) - sz - hb, key_b = BLOCK_KEY\<rparr>"
    by (rule pts(2))
  have B'n: "n \<noteq> 0 \<Longrightarrow> B' n = (B n)\<lparr>prev_b := N\<rparr>"
    by (rule pts(3))
  have B'o: "b \<noteq> c \<Longrightarrow> b \<noteq> N \<Longrightarrow> b \<noteq> n \<or> n = 0 \<Longrightarrow> B' b = B b" for b
    using pts(4) by blast
  have xs_same: "B' b = B b" if "b \<in> set xs" for b
  proof -
    have "unat b < unat c" using xs_lt that by simp
    moreover have "n \<noteq> 0 \<longrightarrow> unat c < unat n" using n_ge hb0 by (auto simp: a'_def)
    moreover have "unat c < unat N" using uN hb0 by (simp add: a'_def)
    ultimately show ?thesis by (intro B'o) auto
  qed
  have L1': "lay hb B' h p x a xs x' a'"
    using L1 lay_frame [of xs B' B] xs_same by simp
  have tail: "lay hb B' h N n (a' + unat hb + unat (size_b (B c))) ys 0 e"
  proof (cases ys)
    case Nil
    then show ?thesis using L3 by simp
  next
    case (Cons y ys')
    with L3 have y: "n = y" "y \<noteq> 0" and L4: "lay hb B h c y (a' + unat hb + unat (size_b (B c))) (y # ys') 0 e"
      by simp_all
    have above: "\<forall>b \<in> set ys'. unat y < unat b"
      using lay_above [OF L4 hb(1)] .
    have "B' b = B b" if "b \<in> set ys'" for b
    proof -
      have "unat y < unat b" using above that by simp
      moreover have "unat N < unat y" using n_ge y uN fit hb0 by auto
      moreover have "unat c < unat N" using uN hb0 by (simp add: a'_def)
      ultimately show ?thesis using y by (intro B'o) auto
    qed
    then have fr: "lay hb B' h q z k ys' 0 e = lay hb B h q z k ys' 0 e" for q z k
      by (intro lay_frame) simp
    show ?thesis
      using L4 B'n y by (simp add: Cons fr)
  qed
  have mid: "lay hb B' h (last (p # xs)) x' a' (c # N # ys) 0 e"
  proof -
    have "8 dvd unat N" using uN c(3) hb(2) sz by simp
    moreover have "8 dvd unat (size_b (B c) - sz - hb)"
      using usz c(4) hb(2) sz fit by (simp add: dvd_diff_nat)
    moreover have "N \<noteq> 0" using uN hb0 by (auto simp: unat_eq_zero [symmetric])
    moreover have pos: "unat c + unat hb + unat sz + unat hb + unat (size_b (B c) - sz - hb)
        = unat c + unat hb + unat (size_b (B c))"
      using usz fit by simp
    moreover have "lay hb B' h N n (unat c + unat hb + unat sz + unat hb
        + unat (size_b (B c) - sz - hb)) ys 0 e"
      by (subst pos) (use tail in \<open>simp add: a'_def\<close>)
    ultimately show ?thesis
      using c sz by (simp add: B'c B'N uN a'_def)
  qed
  have last_eq: "last (p # xs) = last (p # xs)" ..
  show "lay hb (split_at hb B h c sz) h p x a (xs @ c # (c + hb + sz) # ys) 0 e"
    unfolding lay_append using L1' mid by (auto simp: B'_def N_def)
  have ys_same_used: "isUsed (B' b) = isUsed (B b)" if "b \<in> set ys" for b
  proof (cases "b = n")
    case True
    then have "n \<noteq> 0" using that ys_ge hb0 by (auto simp: unat_eq_zero [symmetric])
    then show ?thesis using B'n True by simp
  next
    case False
    have "unat N < unat b" using ys_ge that uN fit hb0 by auto
    moreover have "unat c < unat N" using uN hb0 by (simp add: a'_def)
    ultimately have "B' b = B b" using False by (intro B'o) auto
    then show ?thesis by simp
  qed
  show "\<forall>b \<in> set xs \<union> set ys. isUsed (split_at hb B h c sz b) = isUsed (B b)"
    using xs_same ys_same_used by (auto simp: B'_def)
  show "isUsed (split_at hb B h c sz c)"
    using B'c by (simp add: B'_def)
  show "\<not> isUsed (split_at hb B h c sz (c + hb + sz))"
    using B'N by (simp add: B'_def N_def isUsed_def)
  show "c + hb + sz \<notin> set (xs @ c # ys)"
  proof -
    have "\<forall>b \<in> set xs. unat b < unat N" using xs_lt uN by (auto simp: a'_def)
    moreover have "\<forall>b \<in> set ys. unat N < unat b" using ys_ge uN fit hb0 by auto
    ultimately show ?thesis using Nc by (auto simp: N_def)
  qed
qed

lemma alloc_chain:
  assumes inv: "chain_inv hb B h first e bs"
  shows "\<exists>B' p bs'. alloc hb B first n = Some (B', p) \<and> chain_inv hb B' h first e bs'
      \<and> (p = 0 \<longrightarrow> B' = B \<and> bs' = bs)
      \<and> (p \<noteq> 0 \<longrightarrow> (\<exists>c \<in> set bs. p = c + hb \<and> unat p = unat c + unat hb \<and> \<not> isUsed (B c)
             \<and> used_blocks B' bs' = insert c (used_blocks B bs)
             \<and> int (unat (size_b (B' c))) - int (unat n) < int (unat hb)))"
proof (cases "n = 0")
  case True
  then show ?thesis using inv by (auto simp: alloc_def)
next
  case False
  define sz where "sz = align8 n"
  from inv have hb: "hb \<noteq> 0" "8 dvd unat hb" and e: "e < 2 ^ 64" and ne: "bs \<noteq> []"
    and L: "lay hb B h 0 first (unat first) bs 0 e"
    and naf: "no_adjacent_free (map (\<lambda>b. isUsed (B b)) bs)"
    by (simp_all add: chain_inv_def)
  have hb8: "8 \<le> unat hb" using hb by (rule hb_ge8)
  have scan: "alloc_scan B sz first = Some (case find (fits B sz) bs of None \<Rightarrow> 0 | Some c \<Rightarrow> c)"
    using L by (rule lay_scan)
  show ?thesis
  proof (cases "find (fits B sz) bs")
    case None
    then have "alloc hb B first n = Some (B, 0)"
      using alloc_none [OF False, of B first hb] scan by (simp add: sz_def)
    then show ?thesis using inv by auto
  next
    case (Some c)
    then have cin: "c \<in> set bs" and fit: "fits B sz c"
      by (auto simp: find_Some_iff)
    from lay_elem [OF L cin] have c: "c \<noteq> 0" "8 dvd unat c" "8 dvd unat (size_b (B c))"
      "unat c + unat hb + unat (size_b (B c)) \<le> e" by simp_all
    from cin obtain xs ys where bs: "bs = xs @ c # ys"
      by (auto dest: split_list)
    have first: "heap_b (B first) = h"
      using lay_elem [OF L, of first] lay_hd [OF L ne] ne by (cases bs) auto
    have free: "\<not> isUsed (B c)" and szle: "unat sz \<le> unat (size_b (B c))"
      using fit by (simp_all add: fits_def word_less_nat_alt)
    have usum: "unat (sz + hb) = unat sz + unat hb"
      using szle c(4) e by (intro unat_add_small) simp
    have up: "unat (c + hb) = unat c + unat hb"
      using c(4) e by (intro unat_add_small) simp
    have pnz: "c + hb \<noteq> 0"
      using up hb8 by (auto simp: unat_gt_0 [symmetric] simp del: unat_gt_0)
    have sz8: "8 dvd unat sz" by (simp add: sz_def align8_dvd)
    have szn: "int (unat sz) - int (unat n) \<le> 7"
      using align8_bounds(1) [of n] unfolding sz_def by linarith
    have sc: "alloc_scan B (align8 n) first = Some c"
      using scan Some by (simp add: sz_def)
    let ?u = "\<lambda>b. isUsed (B b)"
    from naf have naf0: "no_adjacent_free (map ?u xs @ False # map ?u ys)"
      using free by (simp add: bs)
    show ?thesis
    proof (cases "sz + hb \<le> size_b (B c)")
      case True
      define N where "N = c + hb + sz"
      define B' where "B' = split_at hb B h c sz"
      have fit2: "unat sz + unat hb \<le> unat (size_b (B c))"
        using True usum by (simp add: word_le_nat_alt)
      have uN: "unat N = unat c + unat hb + unat sz"
        unfolding N_def using up fit2 c(4) e by (subst unat_add_small) simp_all
      have N8: "N AND 7 = 0"
        using uN c(2) hb(2) sz8 by (simp add: dvd8_and7 [symmetric])
      have Nnz: "N \<noteq> 0" "N \<noteq> c"
        using uN hb8 by (auto simp: unat_gt_0 [symmetric] simp del: unat_gt_0)
      have new: "HeapBlock_new hb N = N"
        using N8 hb(2) by (simp add: HeapBlock_new_def dvd8_and7)
      have res: "alloc hb B first n = Some (B', c + hb)"
        using alloc_split [OF False sc c(1), of hb] True new Nnz first
        by (simp add: N_def B'_def sz_def)
      note sp = split_at_lay [OF L [unfolded bs] hb e sz8 fit2, folded N_def B'_def]
      let ?u' = "\<lambda>b. isUsed (B' b)"
      have same: "map ?u' xs = map ?u xs" "map ?u' ys = map ?u ys"
        using sp(2) by auto
      have naf': "no_adjacent_free (map ?u' (xs @ c # N # ys))"
        using naf0 sp(3,4) by (auto simp: same naf_append naf_Cons)
      have inv': "chain_inv hb B' h first e (xs @ c # N # ys)"
        using hb e sp(1) naf' by (simp add: chain_inv_def)
      have used: "used_blocks B' (xs @ c # N # ys) = insert c (used_blocks B bs)"
        using sp(2,3,4) free by (auto simp: used_blocks_def bs)
      have "size_b (B' c) = sz"
        using Nnz by (simp add: B'_def split_at_def Let_def N_def)
      then have "unat (size_b (B' c)) = unat sz"
        by simp
      then have "int (unat (size_b (B' c))) - int (unat n) < int (unat hb)"
        using szn hb8 by linarith
      with res inv' used pnz up free cin show ?thesis
        by (intro exI [of _ B'] exI [of _ "c + hb"] exI [of _ "xs @ c # N # ys"]) auto
    next
      case False
      define B' where "B' = B(c := (B c)\<lparr>attr_b := attr_b (B c) OR ATTR_USED\<rparr>)"
      have res: "alloc hb B first n = Some (B', c + hb)"
        using alloc_nosplit [OF \<open>n \<noteq> 0\<close> sc c(1), of hb] False
        by (simp add: B'_def sz_def)
      have L': "lay hb B' h 0 first (unat first) bs 0 e"
        using L by (subst lay_cong [of bs B' B]) (auto simp: B'_def)
      let ?u' = "\<lambda>b. isUsed (B' b)"
      have cnot: "c \<notin> set xs" "c \<notin> set ys"
      proof -
        from L [unfolded bs lay_append] obtain x' a' where
          L1: "lay hb B h 0 first (unat first) xs x' a'" and
          L2: "lay hb B h (last (0 # xs)) x' a' (c # ys) 0 e" by auto
        from L2 have "a' = unat c" by simp
        then show "c \<notin> set xs" using lay_bounds [OF L1] hb8 by fastforce
        show "c \<notin> set ys" using lay_above [OF L2 hb(1)] by auto
      qed
      have same: "map ?u' xs = map ?u xs" "map ?u' ys = map ?u ys"
        using cnot by (auto simp: B'_def)
      have uc: "isUsed (B' c)" by (simp add: B'_def)
      have naf': "no_adjacent_free (map ?u' bs)"
        using naf0 uc by (auto simp: bs same naf_append naf_Cons)
      have inv': "chain_inv hb B' h first e bs"
        using hb e ne L' naf' by (simp add: chain_inv_def)
      have used: "used_blocks B' bs = insert c (used_blocks B bs)"
        using cin by (auto simp: used_blocks_def B'_def)
      have "unat (size_b (B c)) < unat sz + unat hb"
        using False usum by (simp add: word_le_nat_alt)
      moreover have "8 dvd unat sz + unat hb" using sz8 hb(2) by simp
      ultimately have "unat (size_b (B c)) + 8 \<le> unat sz + unat hb"
        using c(3) by (auto simp: dvd_def)
      moreover have "unat (size_b (B' c)) = unat (size_b (B c))"
        by (simp add: B'_def)
      ultimately have "int (unat (size_b (B' c))) - int (unat n) < int (unat hb)"
        using szn by linarith
      with res inv' used pnz up free cin show ?thesis
        by (intro exI [of _ B'] exI [of _ "c + hb"] exI [of _ bs]) auto
    qed
  qed
qed

subsection \<open>free keeps the invariant\<close>

lemma absorb:
  assumes L: "lay hb B h p x a (xs @ q # ds @ ys) 0 e"
    and hb: "hb \<noteq> 0" "8 dvd unat hb" and e: "e < 2 ^ 64"
    and q': "key_b (B' q) = key_b (B q)" "heap_b (B' q) = heap_b (B q)"
      "prev_b (B' q) = prev_b (B q)"
      "size_b (B' q) = size_b (B q) + foldr (\<lambda>d s. hb + size_b (B d) + s) ds 0"
      "next_b (B' q) = (case ys of [] \<Rightarrow> 0 | y # ys' \<Rightarrow> y)"
    and xs': "\<forall>z \<in> set xs. B' z = B z"
    and ys': "case ys of [] \<Rightarrow> True | y # ys' \<Rightarrow> B' y = (B y)\<lparr>prev_b := q\<rparr> \<and> (\<forall>z \<in> set ys'. B' z = B z)"
  shows "lay hb B' h p x a (xs @ q # ys) 0 e"
proof -
  let ?t = "foldr (\<lambda>d s. hb + size_b (B d) + s) ds 0"
  let ?a1 = "unat q + unat hb + unat (size_b (B q))"
  from L obtain x' a' where L1: "lay hb B h p x a xs x' a'"
    and L2: "lay hb B h (last (p # xs)) x' a' (q # ds @ ys) 0 e"
    unfolding lay_append by auto
  from L2 have q: "x' = q" "q \<noteq> 0" "unat q = a'" "8 dvd a'" "8 dvd unat (size_b (B q))"
    "key_b (B q) = BLOCK_KEY" "heap_b (B q) = h" "prev_b (B q) = last (p # xs)"
    and L3: "lay hb B h q (next_b (B q)) ?a1 (ds @ ys) 0 e"
    by simp_all
  from L3 obtain w a2 where L4: "lay hb B h q (next_b (B q)) ?a1 ds w a2"
    and L5: "lay hb B h (last (q # ds)) w a2 ys 0 e"
    unfolding lay_append by auto
  have a2e: "a2 \<le> e" using lay_bounds [OF L5] by simp
  then have a2: "a2 < 2 ^ 64" using e by simp
  from lay_span [OF L4 a2 hb(2)]
  have t: "unat ?t = a2 - ?a1" "?a1 \<le> a2" "8 dvd (a2 - ?a1)" by simp_all
  have sz: "unat (size_b (B' q)) = unat (size_b (B q)) + unat ?t"
    unfolding q'(4) using t a2 by (intro unat_add_small) simp
  have pos: "unat q + unat hb + unat (size_b (B' q)) = a2"
    using sz t by simp
  have L1': "lay hb B' h p x a xs x' a'"
    using L1 lay_frame [of xs B' B] xs' by simp
  have L5': "lay hb B' h q (next_b (B' q)) a2 ys 0 e"
  proof (cases ys)
    case Nil
    then show ?thesis using L5 q'(5) by simp
  next
    case (Cons y ys')
    with ys' have y: "B' y = (B y)\<lparr>prev_b := q\<rparr>" and rest: "\<forall>z \<in> set ys'. B' z = B z"
      by simp_all
    have fr: "lay hb B' h k z m ys' 0 e = lay hb B h k z m ys' 0 e" for k z m
      using rest by (intro lay_frame) simp
    show ?thesis
      using L5 q'(5) y by (simp add: Cons fr)
  qed
  have d8: "8 dvd unat (size_b (B' q))"
    unfolding sz t(1) using t(3) q(5) by simp
  have "lay hb B' h q (next_b (B' q)) (unat q + unat hb + unat (size_b (B' q))) ys 0 e"
    unfolding pos using L5' .
  then have "lay hb B' h (last (p # xs)) x' a' (q # ys) 0 e"
    using q q'(1,2,3) d8 by simp
  with L1' show ?thesis
    unfolding lay_append by auto
qed

lemma merge_both_points:
  assumes "prev_b (B b) \<noteq> next_b (B (next_b (B b)))"
  shows "merge_both hb B b (prev_b (B b)) = (B (prev_b (B b)))\<lparr>size_b := size_b (B (prev_b (B b)))
        + (2 * hb + size_b (B b) + size_b (B (next_b (B b)))), next_b := next_b (B (next_b (B b)))\<rparr>"
    and "next_b (B (next_b (B b))) \<noteq> 0 \<Longrightarrow> merge_both hb B b (next_b (B (next_b (B b))))
        = (B (next_b (B (next_b (B b)))))\<lparr>prev_b := prev_b (B b)\<rparr>"
    and "\<And>z. z \<noteq> prev_b (B b) \<Longrightarrow> z \<noteq> next_b (B (next_b (B b))) \<or> next_b (B (next_b (B b))) = 0
        \<Longrightarrow> merge_both hb B b z = B z"
  using assms by (auto simp: merge_both_def Let_def)

lemma merge_prev_points:
  assumes "prev_b (B b) \<noteq> next_b (B b)"
  shows "merge_prev hb B b (prev_b (B b)) = (B (prev_b (B b)))\<lparr>size_b := size_b (B (prev_b (B b)))
        + (hb + size_b (B b)), next_b := next_b (B b)\<rparr>"
    and "next_b (B b) \<noteq> 0 \<Longrightarrow> merge_prev hb B b (next_b (B b)) = (B (next_b (B b)))\<lparr>prev_b := prev_b (B b)\<rparr>"
    and "\<And>z. z \<noteq> prev_b (B b) \<Longrightarrow> z \<noteq> next_b (B b) \<or> next_b (B b) = 0 \<Longrightarrow> merge_prev hb B b z = B z"
  using assms by (auto simp: merge_prev_def Let_def)

lemma merge_next_points:
  assumes "b \<noteq> next_b (B (next_b (B b)))"
  shows "merge_next hb B b b = (B b)\<lparr>size_b := size_b (B b) + (hb + size_b (B (next_b (B b)))),
        next_b := next_b (B (next_b (B b))), attr_b := attr_b (B b) AND NOT ATTR_USED\<rparr>"
    and "next_b (B (next_b (B b))) \<noteq> 0 \<Longrightarrow> merge_next hb B b (next_b (B (next_b (B b))))
        = (B (next_b (B (next_b (B b)))))\<lparr>prev_b := b\<rparr>"
    and "\<And>z. z \<noteq> b \<Longrightarrow> z \<noteq> next_b (B (next_b (B b))) \<or> next_b (B (next_b (B b))) = 0
        \<Longrightarrow> merge_next hb B b z = B z"
  using assms by (auto simp: merge_next_def Let_def)

lemma free_chain:
  assumes inv: "chain_inv hb B h first e bs" and bin: "b \<in> set bs" and used: "isUsed (B b)"
  shows "\<exists>bs'. chain_inv hb (free_switch hb B b) h first e bs'
     \<and> used_blocks (free_switch hb B b) bs' = used_blocks B bs - {b}"
proof -
  from inv have hb: "hb \<noteq> 0" "8 dvd unat hb" and e: "e < 2 ^ 64" and ne: "bs \<noteq> []"
    and L: "lay hb B h 0 first (unat first) bs 0 e"
    and naf: "no_adjacent_free (map (\<lambda>b. isUsed (B b)) bs)"
    by (simp_all add: chain_inv_def)
  let ?u = "\<lambda>b. isUsed (B b)"
  from bin obtain xs ys where bs: "bs = xs @ b # ys"
    by (auto dest: split_list)
  have D: "distinct (xs @ b # ys)" "0 \<notin> set (xs @ b # ys)"
    using lay_distinct [OF L hb(1)] by (simp_all add: bs)
  from L [unfolded bs lay_append] obtain x' a' where
    L1: "lay hb B h 0 first (unat first) xs x' a'" and
    L2: "lay hb B h (last (0 # xs)) x' a' (b # ys) 0 e" by auto
  have pv: "prev_b (B b) = last (0 # xs)" using L2 by simp
  have nx: "next_b (B b) = (case ys of [] \<Rightarrow> 0 | y # ys' \<Rightarrow> y)"
    using L2 by (rule lay_next_of)
  have lx: "last xs \<noteq> 0" if "xs \<noteq> []"
  proof -
    from that have "last xs \<in> set xs" by (rule last_in_set)
    with D(2) show ?thesis by auto
  qed
  have pf: "prev_free B b \<longleftrightarrow> xs \<noteq> [] \<and> \<not> isUsed (B (last xs))"
    using lx by (cases "xs = []") (simp_all add: prev_free_def pv)
  have nf: "next_free B b \<longleftrightarrow> ys \<noteq> [] \<and> \<not> isUsed (B (hd ys))"
    using D(2) by (auto simp: next_free_def nx split: list.splits)
  show ?thesis
  proof (cases "prev_free B b")
    case True
    then obtain xs' p where xs: "xs = xs' @ [p]" and pfree: "\<not> isUsed (B p)"
      unfolding pf by (cases xs rule: rev_cases) auto
    have pb: "prev_b (B b) = p" using pv by (simp add: xs)
    show ?thesis
    proof (cases "next_free B b")
      case True
      then obtain n ys' where ys: "ys = n # ys'" and nfree: "\<not> isUsed (B n)"
        unfolding nf by (cases ys) auto
      define B' where "B' = merge_both hb B b"
      have fs: "free_switch hb B b = B'"
        using \<open>prev_free B b\<close> True by (simp add: free_switch_eq B'_def)
      have nb: "next_b (B b) = n" using nx by (simp add: ys)
      from L2 have L3: "lay hb B h b n (a' + unat hb + unat (size_b (B b))) (n # ys') 0 e"
        by (simp add: ys)
      have nn: "next_b (B n) = (case ys' of [] \<Rightarrow> 0 | y # ys'' \<Rightarrow> y)"
        using L3 by (rule lay_next_of)
      have D': "distinct (xs' @ p # b # n # ys')" "0 \<notin> set (xs' @ p # b # n # ys')"
        using D by (simp_all add: xs ys)
      have pnn: "prev_b (B b) \<noteq> next_b (B (next_b (B b)))"
        using D' by (auto simp: pb nb nn split: list.splits)
      note pts = merge_both_points [where B = B and b = b and hb = hb, OF pnn, folded B'_def, unfolded pb nb]
      have L': "lay hb B' h 0 first (unat first) (xs' @ p # ys') 0 e"
      proof (rule absorb [where ds = "[b, n]" and B = B])
        show "lay hb B h 0 first (unat first) (xs' @ p # [b, n] @ ys') 0 e"
          using L by (simp add: bs xs ys)
        show "size_b (B' p) = size_b (B p) + foldr (\<lambda>d s. hb + size_b (B d) + s) [b, n] 0"
          by (simp add: pts(1))
        show "next_b (B' p) = (case ys' of [] \<Rightarrow> 0 | y # ys'' \<Rightarrow> y)"
          by (simp add: pts(1) nn)
        show "\<forall>z \<in> set xs'. B' z = B z"
          using D' by (auto intro!: pts(3) simp: nn split: list.splits)
        show "case ys' of [] \<Rightarrow> True | y # ys'' \<Rightarrow> B' y = (B y)\<lparr>prev_b := p\<rparr> \<and> (\<forall>z \<in> set ys''. B' z = B z)"
          using D' pts(2) by (auto intro!: pts(3) simp: nn split: list.splits)
      qed (use hb e in \<open>simp_all add: pts(1)\<close>)
      have u': "isUsed (B' z) = isUsed (B z)" for z
        by (simp add: B'_def merge_both_def Let_def)
      have "no_adjacent_free (map ?u (xs' @ p # b # n # ys'))"
        using naf by (simp add: bs xs ys)
      then have naf': "no_adjacent_free (map (\<lambda>b. isUsed (B' b)) (xs' @ p # ys'))"
        using pfree nfree by (auto simp: u' naf_append naf_Cons)
      have "chain_inv hb B' h first e (xs' @ p # ys')"
        using hb e L' naf' by (simp add: chain_inv_def)
      moreover have "used_blocks B' (xs' @ p # ys') = used_blocks B bs - {b}"
        using D' nfree by (auto simp: used_blocks_def u' bs xs ys)
      ultimately show ?thesis unfolding fs by blast
    next
      case False
      define B' where "B' = merge_prev hb B b"
      have fs: "free_switch hb B b = B'"
        using \<open>prev_free B b\<close> False by (simp add: free_switch_eq B'_def)
      have D': "distinct (xs' @ p # b # ys)" "0 \<notin> set (xs' @ p # b # ys)"
        using D by (simp_all add: xs)
      have pn: "prev_b (B b) \<noteq> next_b (B b)"
        using D' by (auto simp: pb nx split: list.splits)
      note pts = merge_prev_points [where B = B and b = b and hb = hb, OF pn, folded B'_def, unfolded pb]
      have L': "lay hb B' h 0 first (unat first) (xs' @ p # ys) 0 e"
      proof (rule absorb [where ds = "[b]" and B = B])
        show "lay hb B h 0 first (unat first) (xs' @ p # [b] @ ys) 0 e"
          using L by (simp add: bs xs)
        show "size_b (B' p) = size_b (B p) + foldr (\<lambda>d s. hb + size_b (B d) + s) [b] 0"
          by (simp add: pts(1))
        show "next_b (B' p) = (case ys of [] \<Rightarrow> 0 | y # ys' \<Rightarrow> y)"
          by (simp add: pts(1) nx)
        show "\<forall>z \<in> set xs'. B' z = B z"
          using D' by (auto intro!: pts(3) simp: nx split: list.splits)
        show "case ys of [] \<Rightarrow> True | y # ys' \<Rightarrow> B' y = (B y)\<lparr>prev_b := p\<rparr> \<and> (\<forall>z \<in> set ys'. B' z = B z)"
          using D' pts(2) by (auto intro!: pts(3) simp: nx split: list.splits)
      qed (use hb e in \<open>simp_all add: pts(1)\<close>)
      have u': "isUsed (B' z) = isUsed (B z)" for z
        by (simp add: B'_def merge_prev_def Let_def)
      have nused: "ys = [] \<or> hd (map ?u ys)"
        using False unfolding nf by (cases ys) auto
      have "no_adjacent_free (map ?u (xs' @ p # b # ys))"
        using naf by (simp add: bs xs)
      then have naf': "no_adjacent_free (map (\<lambda>b. isUsed (B' b)) (xs' @ p # ys))"
        using pfree nused by (auto simp: u' naf_append naf_Cons)
      have "chain_inv hb B' h first e (xs' @ p # ys)"
        using hb e L' naf' by (simp add: chain_inv_def)
      moreover have "used_blocks B' (xs' @ p # ys) = used_blocks B bs - {b}"
        using D' by (auto simp: used_blocks_def u' bs xs)
      ultimately show ?thesis unfolding fs by blast
    qed
  next
    case False
    have pused: "xs = [] \<or> last (map ?u xs)"
      using False unfolding pf by (cases xs rule: rev_cases) auto
    show ?thesis
    proof (cases "next_free B b")
      case True
      then obtain n ys' where ys: "ys = n # ys'" and nfree: "\<not> isUsed (B n)"
        unfolding nf by (cases ys) auto
      define B' where "B' = merge_next hb B b"
      have fs: "free_switch hb B b = B'"
        using \<open>\<not> prev_free B b\<close> True by (simp add: free_switch_eq B'_def)
      have nb: "next_b (B b) = n" using nx by (simp add: ys)
      from L2 have L3: "lay hb B h b n (a' + unat hb + unat (size_b (B b))) (n # ys') 0 e"
        by (simp add: ys)
      have nn: "next_b (B n) = (case ys' of [] \<Rightarrow> 0 | y # ys'' \<Rightarrow> y)"
        using L3 by (rule lay_next_of)
      have D': "distinct (xs @ b # n # ys')" "0 \<notin> set (xs @ b # n # ys')"
        using D by (simp_all add: ys)
      have bnn: "b \<noteq> next_b (B (next_b (B b)))"
        using D' by (auto simp: nb nn split: list.splits)
      note pts = merge_next_points [where B = B and b = b and hb = hb, OF bnn, folded B'_def, unfolded nb]
      have L': "lay hb B' h 0 first (unat first) (xs @ b # ys') 0 e"
      proof (rule absorb [where ds = "[n]" and B = B])
        show "lay hb B h 0 first (unat first) (xs @ b # [n] @ ys') 0 e"
          using L by (simp add: bs ys)
        show "size_b (B' b) = size_b (B b) + foldr (\<lambda>d s. hb + size_b (B d) + s) [n] 0"
          by (simp add: pts(1))
        show "next_b (B' b) = (case ys' of [] \<Rightarrow> 0 | y # ys'' \<Rightarrow> y)"
          by (simp add: pts(1) nn)
        show "\<forall>z \<in> set xs. B' z = B z"
          using D' by (auto intro!: pts(3) simp: nn split: list.splits)
        show "case ys' of [] \<Rightarrow> True | y # ys'' \<Rightarrow> B' y = (B y)\<lparr>prev_b := b\<rparr> \<and> (\<forall>z \<in> set ys''. B' z = B z)"
          using D' pts(2) by (auto intro!: pts(3) simp: nn split: list.splits)
      qed (use hb e in \<open>simp_all add: pts(1)\<close>)
      have u': "isUsed (B' z) = (z \<noteq> b \<and> isUsed (B z))" for z
        using bnn by (auto simp: B'_def merge_next_def Let_def nb)
      have same: "map (\<lambda>b. isUsed (B' b)) xs = map ?u xs" "map (\<lambda>b. isUsed (B' b)) ys' = map ?u ys'"
        using D' by (auto simp: u')
      have "no_adjacent_free (map ?u (xs @ b # n # ys'))"
        using naf by (simp add: bs ys)
      moreover have ub: "\<not> isUsed (B' b)" by (simp add: u')
      ultimately have naf': "no_adjacent_free (map (\<lambda>b. isUsed (B' b)) (xs @ b # ys'))"
        using nfree pused by (auto simp: same naf_append naf_Cons)
      have "chain_inv hb B' h first e (xs @ b # ys')"
        using hb e L' naf' by (simp add: chain_inv_def)
      moreover have "used_blocks B' (xs @ b # ys') = used_blocks B bs - {b}"
        using D' nfree by (auto simp: used_blocks_def u' bs ys)
      ultimately show ?thesis unfolding fs by blast
    next
      case False
      define B' where "B' = B(b := (B b)\<lparr>attr_b := attr_b (B b) AND NOT ATTR_USED\<rparr>)"
      have fs: "free_switch hb B b = B'"
        using \<open>\<not> prev_free B b\<close> False by (simp add: free_switch_eq B'_def)
      have L': "lay hb B' h 0 first (unat first) bs 0 e"
        using L by (subst lay_cong [of bs B' B]) (auto simp: B'_def)
      have u': "isUsed (B' z) = (z \<noteq> b \<and> isUsed (B z))" for z
        by (simp add: B'_def)
      have same: "map (\<lambda>b. isUsed (B' b)) xs = map ?u xs" "map (\<lambda>b. isUsed (B' b)) ys = map ?u ys"
        using D by (auto simp: u')
      have nused: "ys = [] \<or> hd (map ?u ys)"
        using False unfolding nf by (cases ys) auto
      have "no_adjacent_free (map ?u (xs @ b # ys))"
        using naf by (simp add: bs)
      moreover have ub: "\<not> isUsed (B' b)" by (simp add: u')
      ultimately have naf': "no_adjacent_free (map (\<lambda>b. isUsed (B' b)) bs)"
        using pused nused by (auto simp: bs same naf_append naf_Cons)
      have "chain_inv hb B' h first e bs"
        using hb e ne L' naf' by (simp add: chain_inv_def)
      moreover have "used_blocks B' bs = used_blocks B bs - {b}"
        by (auto simp: used_blocks_def u')
      ultimately show ?thesis unfolding fs by blast
    qed
  qed
qed

subsection \<open>The invariant along a sequence of calls\<close>

lemma heap_inv_constructed:
  assumes "heap_inv hs hb S h bs out"
  shows "Heap_isConstructed hs S h"
proof -
  from assms have L: "lay hb (blocks S) h 0 (getFirstBlock hs h) (unat (getFirstBlock hs h)) bs 0
      (unat (getFirstBlock hs h) + unat (data_size (heaps S h)))" and ne: "bs \<noteq> []"
    and k: "data_key (heaps S h) = HEAP_KEY"
    by (simp_all add: heap_inv_def chain_inv_def)
  from lay_hd [OF L ne] ne have "getFirstBlock hs h \<in> set bs" by (cases bs) auto
  from lay_elem [OF L this] k show ?thesis
    by (simp add: Heap_isConstructed_def isConstructed_def)
qed

lemma data_inj: "data hb a = data hb b \<longleftrightarrow> a = b"
  by (simp add: data_def)

lemma heap_inv_payload:
  assumes "heap_inv hs hb S h bs out" and "b \<in> set bs"
  shows "data hb b \<noteq> 0 \<and> key_b (blocks S b) = BLOCK_KEY \<and> heap_b (blocks S b) = h"
proof -
  from assms have L: "lay hb (blocks S) h 0 (getFirstBlock hs h) (unat (getFirstBlock hs h)) bs 0
      (unat (getFirstBlock hs h) + unat (data_size (heaps S h)))"
    and e: "unat (getFirstBlock hs h) + unat (data_size (heaps S h)) < 2 ^ 64"
    and hb: "hb \<noteq> 0"
    by (simp_all add: heap_inv_def chain_inv_def)
  from lay_elem [OF L assms(2)] have b: "unat b + unat hb + unat (size_b (blocks S b))
      \<le> unat (getFirstBlock hs h) + unat (data_size (heaps S h))"
    "key_b (blocks S b) = BLOCK_KEY" "heap_b (blocks S b) = h" by simp_all
  have "unat (b + hb) = unat b + unat hb"
    using b(1) e by (intro unat_add_small) simp
  moreover have "0 < unat hb" using hb by (simp add: unat_gt_0)
  ultimately have "b + hb \<noteq> 0"
    by (auto simp: unat_gt_0 [symmetric] simp del: unat_gt_0)
  with b show ?thesis by (simp add: data_def)
qed

lemma step_allocate_inv:
  assumes inv: "heap_inv hs hb S h bs out"
  shows "\<exists>S' out' bs'. step hs hb h (S, out) (Allocate n) = Some (S', out')
     \<and> heap_inv hs hb S' h bs' out'"
proof -
  let ?first = "getFirstBlock hs h"
  let ?e = "unat ?first + unat (data_size (heaps S h))"
  from inv have ci: "chain_inv hb (blocks S) h ?first ?e bs"
    and k: "data_key (heaps S h) = HEAP_KEY" and d: "distinct out"
    and o: "set out = data hb ` used_blocks (blocks S) bs"
    by (simp_all add: heap_inv_def)
  from alloc_chain [OF ci, of n] obtain B' p bs' where
    al: "alloc hb (blocks S) ?first n = Some (B', p)" and ci': "chain_inv hb B' h ?first ?e bs'"
    and z: "p = 0 \<longrightarrow> B' = blocks S \<and> bs' = bs"
    and nz: "p \<noteq> 0 \<longrightarrow> (\<exists>c \<in> set bs. p = c + hb \<and> \<not> isUsed (blocks S c)
             \<and> used_blocks B' bs' = insert c (used_blocks (blocks S) bs))"
    by blast
  have st: "step hs hb h (S, out) (Allocate n) = Some (S\<lparr>blocks := B'\<rparr>, if p = 0 then out else p # out)"
    using heap_inv_constructed [OF inv] al by (simp add: Heap_allocate_eq)
  show ?thesis
  proof (cases "p = 0")
    case True
    with z st inv show ?thesis by auto
  next
    case False
    with nz obtain c where c: "c \<in> set bs" "p = data hb c" "\<not> isUsed (blocks S c)"
      "used_blocks B' bs' = insert c (used_blocks (blocks S) bs)"
      by (auto simp: data_def)
    have "p \<notin> set out"
      using c(2,3) o by (auto simp: used_blocks_def data_inj)
    then have "heap_inv hs hb (S\<lparr>blocks := B'\<rparr>) h bs' (p # out)"
      using k ci' d o c by (simp add: heap_inv_def)
    with st False show ?thesis by auto
  qed
qed

lemma step_free_inv:
  assumes inv: "heap_inv hs hb S h bs out" and ok: "permitted out (Free p)"
  shows "\<exists>bs'. heap_inv hs hb (Heap_free hs hb S h p) h bs' (removeAll p out)"
proof (cases "p = 0")
  case True
  have "0 \<notin> set out"
    using inv heap_inv_payload [OF inv] by (auto simp: heap_inv_def used_blocks_def)
  then show ?thesis using True inv by (auto simp: Heap_free_eq)
next
  case False
  let ?first = "getFirstBlock hs h"
  let ?e = "unat ?first + unat (data_size (heaps S h))"
  from inv have ci: "chain_inv hb (blocks S) h ?first ?e bs"
    and k: "data_key (heaps S h) = HEAP_KEY" and d: "distinct out"
    and o: "set out = data hb ` used_blocks (blocks S) bs"
    by (simp_all add: heap_inv_def)
  from ok False o obtain b where b: "b \<in> set bs" "isUsed (blocks S b)" "p = data hb b"
    by (auto simp: used_blocks_def)
  have hbp: "heapBlock hb p = b" by (simp add: b(3) heapBlock_def data_def)
  have cd: "canDelete hs S b"
    using heap_inv_payload [OF inv b(1)] heap_inv_constructed [OF inv]
    by (simp add: canDelete_def isConstructed_def)
  have hf: "Heap_free hs hb S h p = S\<lparr>blocks := free_switch hb (blocks S) b\<rparr>"
    using False heap_inv_constructed [OF inv] cd by (simp add: Heap_free_eq hbp)
  from free_chain [OF ci b(1,2)] obtain bs' where
    ci': "chain_inv hb (free_switch hb (blocks S) b) h ?first ?e bs'"
    and u: "used_blocks (free_switch hb (blocks S) b) bs' = used_blocks (blocks S) bs - {b}"
    by blast
  have "set (removeAll p out) = data hb ` (used_blocks (blocks S) bs - {b})"
    using o b(3) by (auto simp: data_inj)
  then have "heap_inv hs hb (Heap_free hs hb S h p) h bs' (removeAll p out)"
    using k ci' d u by (simp add: heap_inv_def hf distinct_removeAll)
  then show ?thesis ..
qed

lemma run_inv:
  assumes "heap_inv hs hb S h bs out" and "legal hs hb h (S, out) cs"
  shows "\<exists>S' out' bs'. run hs hb h (S, out) cs = Some (S', out') \<and> heap_inv hs hb S' h bs' out'"
  using assms
proof (induction cs arbitrary: S bs out)
  case Nil
  then show ?case by auto
next
  case (Cons c cs)
  show ?case
  proof (cases c)
    case (Allocate n)
    from step_allocate_inv [OF Cons.prems(1), of n] obtain S' out' bs' where
      st: "step hs hb h (S, out) (Allocate n) = Some (S', out')" and inv': "heap_inv hs hb S' h bs' out'"
      by blast
    have "legal hs hb h (S', out') cs"
      using Cons.prems(2) st by (simp add: Allocate del: step.simps)
    from Cons.IH [OF inv' this] st show ?thesis
      by (simp add: Allocate del: step.simps)
  next
    case (Free p)
    have ok: "permitted out (Free p)" and lg: "legal hs hb h (Heap_free hs hb S h p, removeAll p out) cs"
      using Cons.prems(2) by (simp_all add: Free)
    from step_free_inv [OF Cons.prems(1) ok] obtain bs' where
      "heap_inv hs hb (Heap_free hs hb S h p) h bs' (removeAll p out)" by blast
    from Cons.IH [OF this lg] show ?thesis
      by (simp add: Free)
  qed
qed

lemma install_facts:
  assumes i: "install d hs hb S0 ptr isize = (h, S)" and hnz: "h \<noteq> 0"
    and con: "Heap_isConstructed hs S h"
  shows "h = ptr \<and> hs AND 7 = 0 \<and> hb AND 7 = 0 \<and> (h + hs) AND 7 = 0 \<and> h + hs \<noteq> 0
    \<and> \<not> (hb + 16 > (isize AND NOT 7) - hs)
    \<and> fst (isMemoryAvailable d (cells S0) ptr hs)
    \<and> blocks S = (blocks S0)(h + hs := HeapBlock_ctor hb h ((isize AND NOT 7) - hs))
    \<and> data_size (heaps S h) = (isize AND NOT 7) - hs \<and> data_key (heaps S h) = HEAP_KEY"
proof -
  have key: "HEAP_KEY \<noteq> 0" by (simp add: HEAP_KEY_def)
  obtain memory S1 where n: "Heap_new d hs S0 ptr = (memory, S1)" by force
  with i hnz have m: "memory = h" and S: "S = Heap_ctor d hs hb S1 h isize"
    by (auto simp: install_def split: if_splits)
  from n m hnz have 1: "h = ptr" "hs AND 7 = 0" "h AND 7 = 0" "fst (isMemoryAvailable d (cells S0) ptr hs)"
    and S1: "blocks S1 = blocks S0" "heaps S1 = heaps S0"
    by (auto simp: Heap_new_def create_def Let_def split_beta split: if_splits)
  define S1' where "S1' = S1\<lparr>heaps := (heaps S1)(h := HeapData_ctor hs isize)\<rparr>"
  obtain ok S2 where c: "construct d hs hb S1' h = (ok, S2)" by force
  have S2: "S = setConstructed S2 h ok"
    using S c by (simp add: Heap_ctor_def S1'_def Let_def)
  have k2: "data_key (heaps S2 h) = HEAP_KEY"
    using c by (auto simp: construct_def S1'_def HeapData_ctor_def Let_def split_beta split: if_splits)
  have "data_key (heaps S h) = HEAP_KEY" using con by (simp add: Heap_isConstructed_def split: if_splits)
  then have ok: "ok" using S2 k2 key by (auto simp: setConstructed_def split: if_splits)
  then have SS: "S = S2" using S2 k2 by (cases S2) (simp add: setConstructed_def fun_upd_idem)
  from c ok have "hb AND 7 = 0 \<and> (h + hs) AND 7 = 0 \<and> h + hs \<noteq> 0
    \<and> \<not> (hb + 16 > (isize AND NOT 7) - hs)
    \<and> blocks S2 = (blocks S0)(h + hs := HeapBlock_ctor hb h ((isize AND NOT 7) - hs))
    \<and> data_size (heaps S2 h) = (isize AND NOT 7) - hs"
    by (auto simp: construct_def S1'_def HeapData_ctor_def Let_def split_beta getFirstBlock_def
        HeapBlock_new_def S1 split: if_splits)
  with 1 k2 SS show ?thesis by simp
qed

lemma install_inv:
  assumes i: "install d hs hb S0 ptr isize = (h, S)" and hnz: "h \<noteq> 0"
    and con: "Heap_isConstructed hs S h" and r: "region_ok hs hb ptr isize"
  shows "heap_inv hs hb S h [getFirstBlock hs h] []"
    and "size_b (blocks S (getFirstBlock hs h)) = data_size (heaps S h) - hb"
    and "data_size (heaps S h) = (isize AND NOT 7) - hs" and "h = ptr"
proof -
  define T where "T = isize AND NOT 7"
  define ds where "ds = T - hs"
  define first where "first = h + hs"
  from install_facts [OF i hnz con] have f: "h = ptr" "hs AND 7 = 0" "hb AND 7 = 0"
    "first AND 7 = 0" "first \<noteq> 0" "\<not> (hb + 16 > ds)"
    "blocks S = (blocks S0)(first := HeapBlock_ctor hb h ds)"
    "data_size (heaps S h) = ds" "data_key (heaps S h) = HEAP_KEY"
    by (auto simp: T_def ds_def first_def)
  from r have r: "hb \<noteq> 0" "unat hb + 16 < 2 ^ 64" "unat hs \<le> unat T" "unat ptr + unat isize < 2 ^ 64"
    by (simp_all add: region_ok_def T_def)
  have T: "unat T \<le> unat isize" "8 dvd unat T"
  proof -
    have "T \<le> isize" unfolding T_def by (rule word_and_le2)
    then show "unat T \<le> unat isize" by (simp add: word_le_nat_alt)
    have "T AND 7 = 0" by (simp add: T_def word_bw_assocs)
    then show "8 dvd unat T" by (simp add: dvd8_and7)
  qed
  have uds: "unat ds = unat T - unat hs"
    unfolding ds_def using r(3) by (intro unat_sub) (simp add: word_le_nat_alt)
  have ufirst: "unat first = unat h + unat hs"
    unfolding first_def using r(3,4) T(1) f(1) by (intro unat_add_small) simp
  have e: "unat first + unat ds < 2 ^ 64"
    using ufirst uds r(3,4) T(1) f(1) by simp
  have u16: "unat (hb + 16) = unat hb + 16"
    using r(2) unat_add_small [of hb 16] by simp
  have hbds: "unat hb + 16 \<le> unat ds"
    using f(6) u16 by (simp add: word_less_nat_alt)
  have usz: "unat (ds - hb) = unat ds - unat hb"
    using hbds by (intro unat_sub) (simp add: word_le_nat_alt)
  have d8: "8 dvd unat hs" "8 dvd unat hb" "8 dvd unat first"
    using f(2,3,4) by (simp_all add: dvd8_and7)
  have "8 dvd unat ds" unfolding uds using T(2) d8(1) r(3) by (simp add: dvd_diff_nat)
  then have s8: "8 dvd unat (ds - hb)" unfolding usz using d8(2) hbds by (simp add: dvd_diff_nat)
  have blk: "blocks S first = HeapBlock_ctor hb h ds" by (simp add: f(7))
  have L: "lay hb (blocks S) h 0 first (unat first) [first] 0 (unat first + unat ds)"
    using f(5) d8(3) s8 usz hbds by (simp add: blk HeapBlock_ctor_def)
  have "chain_inv hb (blocks S) h first (unat first + unat ds) [first]"
    using r(1) d8(2) e L by (simp add: chain_inv_def)
  moreover have "used_blocks (blocks S) [first] = {}"
    by (simp add: used_blocks_def blk)
  ultimately show "heap_inv hs hb S h [getFirstBlock hs h] []"
    using f(8,9) by (simp add: heap_inv_def getFirstBlock_def first_def [symmetric])
  show "size_b (blocks S (getFirstBlock hs h)) = data_size (heaps S h) - hb"
    using f(8) by (simp add: getFirstBlock_def first_def [symmetric] blk HeapBlock_ctor_def)
  show "data_size (heaps S h) = (isize AND NOT 7) - hs"
    using f(8) by (simp add: ds_def T_def)
  show "h = ptr" by (rule f(1))
qed

lemma lay_chain: "lay hb B h p x a bs 0 e \<Longrightarrow> chain B x bs"
  by (induction bs arbitrary: p x a) auto

lemma lay_sorted:
  assumes "lay hb B h p x a bs y e" and "hb \<noteq> 0"
  shows "sorted_wrt (<) bs"
  using assms(1)
proof (induction bs arbitrary: p x a)
  case Nil
  then show ?case by simp
next
  case (Cons b bs)
  then have L: "lay hb B h b (next_b (B b)) (a + unat hb + unat (size_b (B b))) bs y e"
    by simp
  have "\<forall>c \<in> set bs. b < c"
    using lay_above [OF Cons.prems assms(2)] by (simp add: word_less_nat_alt)
  with Cons.IH [OF L] show ?case by simp
qed

lemma lay_next_higher:
  assumes "lay hb B h p x a bs 0 e" and "hb \<noteq> 0"
  shows "\<forall>b \<in> set bs. next_b (B b) \<noteq> 0 \<longrightarrow> b < next_b (B b)"
  using assms(1)
proof (induction bs arbitrary: p x a)
  case Nil
  then show ?case by simp
next
  case (Cons b bs)
  then have L: "lay hb B h b (next_b (B b)) (a + unat hb + unat (size_b (B b))) bs 0 e"
    by simp
  have "next_b (B b) \<noteq> 0 \<longrightarrow> next_b (B b) \<in> set bs"
    using lay_next [OF L] by blast
  moreover have "\<forall>c \<in> set bs. b < c"
    using lay_above [OF Cons.prems assms(2)] by (simp add: word_less_nat_alt)
  ultimately show ?case using Cons.IH [OF L] by auto
qed

lemma heap_inv_chain:
  assumes "heap_inv hs hb S h bs out"
  shows "chain (blocks S) (getFirstBlock hs h) bs \<and> sorted_wrt (<) bs \<and> distinct bs
     \<and> (\<forall>b \<in> set bs. next_b (blocks S b) \<noteq> 0 \<longrightarrow> b < next_b (blocks S b))
     \<and> no_adjacent_free (map (\<lambda>b. isUsed (blocks S b)) bs)"
proof -
  from assms have L: "lay hb (blocks S) h 0 (getFirstBlock hs h) (unat (getFirstBlock hs h)) bs 0
      (unat (getFirstBlock hs h) + unat (data_size (heaps S h)))"
    and hb: "hb \<noteq> 0" and naf: "no_adjacent_free (map (\<lambda>b. isUsed (blocks S b)) bs)"
    by (simp_all add: heap_inv_def chain_inv_def)
  show ?thesis
    using lay_chain [OF L] lay_sorted [OF L hb] lay_distinct [OF L hb] lay_next_higher [OF L hb] naf
    by simp
qed

lemma legal_allocs: "legal hs hb h \<sigma> (map Allocate ns)"
  by (induction ns arbitrary: \<sigma>) (auto split: option.splits)

lemma step_heaps: "step hs hb h (S, out) c = Some (S', out') \<Longrightarrow> heaps S' = heaps S"
  by (cases c) (auto simp: Heap_allocate_eq Heap_free_eq split: if_splits option.splits)

lemma run_heaps: "run hs hb h (S, out) cs = Some (S', out') \<Longrightarrow> heaps S' = heaps S"
proof (induction cs arbitrary: S out)
  case Nil
  then show ?case by simp
next
  case (Cons c cs)
  then obtain S1 out1 where s: "step hs hb h (S, out) c = Some (S1, out1)"
    and r: "run hs hb h (S1, out1) cs = Some (S', out')"
    by (auto split: option.splits)
  from Cons.IH [OF r] step_heaps [OF s] show ?case by simp
qed

lemma frees_run:
  assumes "heap_inv hs hb S h bs out" and "distinct qs" and "set qs \<subseteq> set out"
  shows "\<exists>S' bs'. run hs hb h (S, out) (map Free qs) = Some (S', filter (\<lambda>x. x \<notin> set qs) out)
     \<and> heap_inv hs hb S' h bs' (filter (\<lambda>x. x \<notin> set qs) out)"
  using assms
proof (induction qs arbitrary: S bs out)
  case Nil
  then show ?case by auto
next
  case (Cons q qs)
  have ok: "permitted out (Free q)" using Cons.prems(3) by simp
  from step_free_inv [OF Cons.prems(1) ok] obtain bs1 where
    inv1: "heap_inv hs hb (Heap_free hs hb S h q) h bs1 (removeAll q out)" by blast
  have sub: "set qs \<subseteq> set (removeAll q out)" and d: "distinct qs"
    using Cons.prems(2,3) by auto
  have flt: "filter (\<lambda>x. x \<notin> set qs) (removeAll q out) = filter (\<lambda>x. x \<notin> set (q # qs)) out"
    by (induction out) auto
  from Cons.IH [OF inv1 d sub] show ?case
    by (simp add: flt)
qed

lemma heap_inv_all_free:
  assumes "heap_inv hs hb S h bs []"
  shows "bs = [getFirstBlock hs h] \<and> \<not> isUsed (blocks S (getFirstBlock hs h))
     \<and> size_b (blocks S (getFirstBlock hs h)) = data_size (heaps S h) - hb"
proof -
  let ?first = "getFirstBlock hs h"
  from assms have L: "lay hb (blocks S) h 0 ?first (unat ?first) bs 0
      (unat ?first + unat (data_size (heaps S h)))"
    and ne: "bs \<noteq> []" and naf: "no_adjacent_free (map (\<lambda>b. isUsed (blocks S b)) bs)"
    and u: "used_blocks (blocks S) bs = {}"
    by (simp_all add: heap_inv_def chain_inv_def)
  have "\<forall>v \<in> set (map (\<lambda>b. isUsed (blocks S b)) bs). \<not> v"
    using u by (auto simp: used_blocks_def)
  from naf_all_free [OF naf this] ne obtain b where bs: "bs = [b]"
    by (cases bs) auto
  with L have b: "b = ?first" and sz: "unat (size_b (blocks S ?first)) + unat hb = unat (data_size (heaps S h))"
    by auto
  then have "hb \<le> data_size (heaps S h)"
    by (simp add: word_le_nat_alt)
  then have "unat (data_size (heaps S h) - hb) = unat (size_b (blocks S ?first))"
    using sz by (simp add: unat_sub)
  then have "size_b (blocks S ?first) = data_size (heaps S h) - hb"
    by (simp add: word_unat_eq_iff)
  moreover have "\<not> isUsed (blocks S ?first)"
    using u bs b by (simp add: used_blocks_def)
  ultimately show ?thesis using bs b by simp
qed

subsection \<open>The example installation, evaluated\<close>

lemma ex_install_all:
  "fst (install ram 48 48 ex_init 0x1000 0x400) = 0x1000"
  "blocks (snd (install ram 48 48 ex_init 0x1000 0x400)) = ex_B"
  "heaps (snd (install ram 48 48 ex_init 0x1000 0x400)) = ex_H"
  by (simp_all add: install_def Heap_new_def create_def Heap_ctor_def construct_def
      HeapData_ctor_def setConstructed_def HeapBlock_new_def HeapBlock_ctor_def getFirstBlock_def
      case_prod_beta Let_def ex_init_def ex_B_def ex_H_def ex_junk_def
      holds_writes_passes [OF ram_holds_writes] fun_eq_iff)

lemma ex_install: "install ram 48 48 ex_init 0x1000 0x400 = (0x1000, ex_fresh)"
  using ex_install_all(1) by (simp add: ex_fresh_def prod_eq_iff)

lemma ex_fresh_simps: "blocks ex_fresh = ex_B" "heaps ex_fresh = ex_H"
  by (simp_all add: ex_fresh_def ex_install_all)

lemma ex_fresh_constructed: "Heap_isConstructed 48 ex_fresh 0x1000"
  by (simp add: Heap_isConstructed_def ex_fresh_simps ex_H_def ex_B_def getFirstBlock_def
      isConstructed_def)

lemma ex_region: "region_ok 48 48 0x1000 0x400"
  by (simp add: region_ok_def)

lemmas ex_eval = Heap_allocate_eq Heap_free_eq Heap_isConstructed_def canDelete_def
  alloc_def align8_def alloc_scan.simps free_switch_def ex_fresh_simps ex_B_def ex_H_def ex_junk_def
  isUsed_def isConstructed_def ATTR_USED_def PREV_FREE_def NEXT_FREE_def HeapBlock_new_def next_at_def
  HeapBlock_ctor_def data_def heapBlock_def getFirstBlock_def Let_def

lemma ex_legal: "legal 48 48 0x1000 (ex_fresh, []) ex_calls"
  by (simp add: ex_calls_def ex_eval)

lemma ex_allocs_run:
  "run 48 48 0x1000 (ex_fresh, []) (map Allocate ex_allocs) = Some (ex_three, [0x1110, 0x10a0, 0x1060])"
  by (simp add: ex_three_def ex_allocs_def ex_eval)

lemma ex_legal2: "legal 48 48 0x1000 (ex_fresh, []) ex_calls2"
  by (simp add: ex_calls2_def ex_eval)

lemma ex_calls2_run: "run 48 48 0x1000 (ex_fresh, []) ex_calls2 = Some (ex_mid, [0x10a0])"
  by (simp add: ex_mid_def ex_calls2_def ex_eval)

lemma ex_mid_allocate: "Heap_allocate 48 48 ex_mid 0x1000 5 0 = Some (ex_last, 0x1060)"
  by (simp add: ex_last_def ex_mid_def ex_calls2_def ex_eval)

lemma ex_frees: "set [0x10a0, 0x1110, 0x1060] = set [0x1110, 0x10a0, 0x1060 :: addr]"
  by auto

subsection \<open>Construction that is rejected\<close>

lemma absent_fails: "sz \<noteq> 0 \<Longrightarrow> fst (isMemoryAvailable absent m ptr sz) = False"
proof -
  assume "sz \<noteq> 0"
  then have z: "0 < sz" by (simp add: word_neq_0_conv)
  have "\<not> (\<forall>i. i < sz \<longrightarrow> (0xFF :: cell) = 0x55)" using z by auto
  then show ?thesis
    by (simp add: isMemoryAvailable_eq Let_def absent_def)
qed

lemma Heap_ctor_size:
  assumes "unat hb + 16 < 2 ^ 64" and "unat hs \<le> unat (isize AND NOT 7)"
    and "unat (isize AND NOT 7) - unat hs < unat hb + 16"
  shows "\<not> Heap_isConstructed hs (Heap_ctor d hs hb S this isize) this"
proof -
  have "unat (hb + 16) = unat hb + 16"
    using assms(1) by (subst unat_add_small) simp_all
  moreover have "unat ((isize AND NOT 7) - hs) = unat (isize AND NOT 7) - unat hs"
    using assms(2) by (simp add: unat_sub word_le_nat_alt)
  ultimately have "(isize AND NOT 7) - hs < hb + 16"
    using assms(3) by (simp add: word_less_nat_alt)
  then show ?thesis
    by (simp add: Heap_ctor_def construct_def HeapData_ctor_def setConstructed_def
        Heap_isConstructed_def HEAP_KEY_def)
qed

lemma Heap_ctor_memory:
  assumes "\<not> fst (isMemoryAvailable d (cells S) (this + hs) ((isize AND NOT 7) - hs))"
  shows "\<not> Heap_isConstructed hs (Heap_ctor d hs hb S this isize) this"
  using assms
  by (simp add: Heap_ctor_def construct_def HeapData_ctor_def setConstructed_def
      Heap_isConstructed_def HEAP_KEY_def case_prod_beta Let_def)

lemma install_misaligned: "ptr AND 7 \<noteq> 0 \<Longrightarrow> fst (install d hs hb S ptr isize) = 0"
  by (simp add: install_def Heap_new_def create_def case_prod_beta Let_def)

lemma ex_B_chain_inv: "chain_inv 48 ex_B 0x1000 0x1030 0x1400 [0x1030]"
  by (simp add: chain_inv_def ex_B_def isUsed_def ATTR_USED_def)

lemma ex_init_not_constructed: "\<not> Heap_isConstructed 48 ex_init 0x1000"
  by (simp add: Heap_isConstructed_def ex_init_def HEAP_KEY_def)

section \<open>Claims\<close>

text \<open>
  C7. \<^verbatim>\<open>Heap::free\<close> leaves the whole state as it was (the heap object, every block
  header, the toggle) when the address is null, when the heap is not constructed, or when
  \<^verbatim>\<open>canDelete\<close> fails for the block of the address, that is when the key of that block
  or the key test of the heap it names fails.
\<close>

theorem Heap_free_noop:
  assumes "ptr = 0 \<or> \<not> Heap_isConstructed hs S this \<or> \<not> canDelete hs S (heapBlock hb ptr)"
  shows "Heap_free hs hb S this ptr = S"
  using assms by (auto simp: Heap_free_eq)

theorem Heap_free_noop_witness:
  "Heap_free 48 48 ex_S 0x1000 0 = ex_S
   \<and> Heap_free 48 48 ex_S 0x2000 0x1060 = ex_S
   \<and> (Heap_isConstructed 48 ex_S 0x1000 \<and> Heap_free 48 48 ex_S 0x1000 0x1100 = ex_S)"
proof -
  have 1: "(0 :: addr) = 0 \<or> \<not> Heap_isConstructed 48 ex_S 0x1000
      \<or> \<not> canDelete 48 ex_S (heapBlock 48 0)"
    by simp
  have 2: "(0x1060 :: addr) = 0 \<or> \<not> Heap_isConstructed 48 ex_S 0x2000
      \<or> \<not> canDelete 48 ex_S (heapBlock 48 0x1060)"
    by (simp add: Heap_isConstructed_def ex_S_def ex_H_def HEAP_KEY_def)
  have 3: "(0x1100 :: addr) = 0 \<or> \<not> Heap_isConstructed 48 ex_S 0x1000
      \<or> \<not> canDelete 48 ex_S (heapBlock 48 0x1100)"
    by (simp add: canDelete_def heapBlock_def ex_S_def ex_B_def ex_junk_def isConstructed_def
        BLOCK_KEY_def)
  show ?thesis
    using Heap_free_noop [OF 1] Heap_free_noop [OF 2] Heap_free_noop [OF 3] ex_S_constructed
    by simp
qed

text \<open>
  C8. On a constructed heap \<^verbatim>\<open>Heap::allocate\<close> with a non-null \<^verbatim>\<open>ptr\<close> returns that
  pointer, whatever the size, and leaves the whole state, so every block header, as it
  was; the result is the same for every content of the chain of a constructed heap.
\<close>

theorem Heap_allocate_passthrough:
  assumes "Heap_isConstructed hs S this" and "ptr \<noteq> 0"
  shows "Heap_allocate hs hb S this sz ptr = Some (S, ptr)"
  using assms by (simp add: Heap_allocate_def)

theorem Heap_allocate_passthrough_witness:
  "Heap_isConstructed 48 ex_S 0x1000 \<and> (0x5000 :: addr) \<noteq> 0
   \<and> Heap_allocate 48 48 ex_S 0x1000 64 0x5000 = Some (ex_S, 0x5000)"
proof -
  have nz: "(0x5000 :: addr) \<noteq> 0" by simp
  show ?thesis
    using Heap_allocate_passthrough [OF ex_S_constructed nz, of 48 64] ex_S_constructed by simp
qed

text \<open>
  C10. \<^verbatim>\<open>data\<close> adds the header size to the address of a block and \<^verbatim>\<open>heapBlock\<close>
  subtracts it, so each undoes the other. When \<^verbatim>\<open>alloc\<close> returns a non-null address
  \<open>p\<close>, the block \<open>b\<close> that its scan stopped at satisfies \<open>p = b + hb\<close>, \<^verbatim>\<open>heapBlock\<close>
  of \<open>p\<close> is \<open>b\<close>, \<open>b\<close> is marked used, and \<^verbatim>\<open>Heap::free\<close> of \<open>p\<close> on a constructed
  heap is \<^verbatim>\<open>HeapBlock::free\<close> on \<open>b\<close>.
\<close>

theorem data_heapBlock_inverse:
  "(\<forall>b. data hb b = b + hb \<and> heapBlock hb (data hb b) = b)
   \<and> (\<forall>q. heapBlock hb q = q - hb \<and> data hb (heapBlock hb q) = q)
   \<and> (\<forall>B this n B' p. alloc hb B this n = Some (B', p) \<and> p \<noteq> 0 \<longrightarrow>
        (\<exists>b. alloc_scan B (align8 n) this = Some b \<and> b \<noteq> 0 \<and> p = b + hb
           \<and> heapBlock hb p = b \<and> isUsed (B' b)
           \<and> (\<forall>S :: 'm state. \<forall>h hs. Heap_isConstructed hs S h \<longrightarrow>
                Heap_free hs hb S h p = free hs hb S b)))"
proof (intro conjI allI impI)
  fix B this n B' p
  assume a: "alloc hb B this n = Some (B', p) \<and> p \<noteq> 0"
  then have r: "alloc_scan B (align8 n) this = Some (heapBlock hb p)" "heapBlock hb p \<noteq> 0"
    "p = data hb (heapBlock hb p)" "isUsed (B' (heapBlock hb p))"
    using alloc_result [of hb B this n B' p] by simp_all
  have "Heap_free hs hb S h p = free hs hb S (heapBlock hb p)"
    if "Heap_isConstructed hs S h" for S :: "'m state" and h hs
    using that a by (simp add: Heap_free_eq free_def)
  with r show "\<exists>b. alloc_scan B (align8 n) this = Some b \<and> b \<noteq> 0 \<and> p = b + hb
           \<and> heapBlock hb p = b \<and> isUsed (B' b)
           \<and> (\<forall>S :: 'm state. \<forall>h hs. Heap_isConstructed hs S h \<longrightarrow>
                Heap_free hs hb S h p = free hs hb S b)"
    by (intro exI [of _ "heapBlock hb p"]) (simp add: data_def)
qed (simp_all add: data_def heapBlock_def)

theorem data_heapBlock_inverse_witness:
  "\<exists>b. alloc_scan ex_B (align8 16) 0x1030 = Some b \<and> b \<noteq> 0 \<and> (0x1060 :: addr) = b + 48
      \<and> heapBlock 48 0x1060 = b"
  using data_heapBlock_inverse [of 48, THEN conjunct2, THEN conjunct2, rule_format, OF conjI,
      OF ex_alloc_16]
  by auto

text \<open>
  C9. \<^verbatim>\<open>isMemoryAvailable\<close> on \<open>sz\<close> cells from \<open>ptr\<close> makes four passes, in this
  order: the low eight bits of the index, \<open>0x55\<close>, \<open>0xAA\<close> and zero. Each pass writes
  its pattern to the cells \<open>ptr + 0, \<dots>, ptr + (sz - 1)\<close> in ascending order and then
  compares every cell of the range with the pattern. The result is true exactly when
  all comparisons of all four passes match; at the first pass with a mismatch the result
  is false and the memory is as that pass wrote it, so no later pass has run.
\<close>

theorem isMemoryAvailable_passes:
  "(let W = (\<lambda>pat m0. foldl (\<lambda>m k. wr d m (ptr + of_nat k) (pat (of_nat k :: addr))) m0
               [0..<unat sz]);
        OK = (\<lambda>pat m0. \<forall>i. i < sz \<longrightarrow> rd d m0 (ptr + i) = pat i);
        m1 = W (\<lambda>i. ucast i) m;
        m2 = W (\<lambda>i. 0x55) m1;
        m3 = W (\<lambda>i. 0xAA) m2;
        m4 = W (\<lambda>i. 0x00) m3
    in isMemoryAvailable d m ptr sz =
         (if \<not> OK (\<lambda>i. ucast i) m1 then (False, m1)
          else if \<not> OK (\<lambda>i. 0x55) m2 then (False, m2)
          else if \<not> OK (\<lambda>i. 0xAA) m3 then (False, m3)
          else if \<not> OK (\<lambda>i. 0x00) m4 then (False, m4)
          else (True, m4)))"
  by (simp only: isMemoryAvailable_eq Let_def)

theorem isMemoryAvailable_passes_witness:
  "isMemoryAvailable ram (\<lambda>a. 0x33) 0x1000 1 = (True, (\<lambda>a. 0x33)(0x1000 := 0))
   \<and> isMemoryAvailable absent () 0x1000 2 = (False, ())"
proof -
  have one: "i < 1 \<longleftrightarrow> i = 0" for i :: addr
    by (simp add: word_less_nat_alt word_unat_eq_iff)
  have two: "(0 :: addr) < 2" by simp
  have "\<not> (\<forall>i :: addr. i < 2 \<longrightarrow> (0xFF :: cell) = ucast i)"
    using two by (auto intro!: exI [of _ 0])
  then show ?thesis
    using isMemoryAvailable_passes [where d = ram and ptr = "0x1000" and sz = 1
        and m = "\<lambda>a. 0x33"]
      isMemoryAvailable_passes [where d = absent and ptr = "0x1000" and sz = 2 and m = "()"]
    by (simp add: Let_def ram_def absent_def one)
qed

text \<open>
  C2. When \<^verbatim>\<open>canDelete\<close> holds, \<^verbatim>\<open>HeapBlock::free\<close> changes block headers only,
  and which headers depends on whether the previous block \<open>p\<close> and the next block
  \<open>n\<close> exist and are free. Both free: the size of \<open>p\<close> grows by the sizes of the
  block and of \<open>n\<close> and two header sizes, and \<open>p\<close> is linked to the block after \<open>n\<close>
  in both directions. Only \<open>p\<close> free: the size of \<open>p\<close> grows by the size of the block
  and one header size, and \<open>p\<close> is linked to \<open>n\<close>. Only \<open>n\<close> free: the size of the
  block grows by the size of \<open>n\<close> and one header size, the block is linked to the block
  after \<open>n\<close>, and its used flag is cleared. Neither free: the used flag of the block
  is cleared and nothing else changes. In each case every header other than the ones
  named is unchanged.
\<close>

theorem free_outcomes:
  assumes "canDelete hs S b" and "B = blocks S" and "p = prev_b (B b)" and "n = next_b (B b)"
    and "B' = blocks (free hs hb S b)"
    and "pf = (p \<noteq> 0 \<and> \<not> isUsed (B p))" and "nf = (n \<noteq> 0 \<and> \<not> isUsed (B n))"
  shows "free hs hb S b = S\<lparr>blocks := B'\<rparr>
    \<and> (pf \<and> nf \<longrightarrow>
          size_b (B' p) = size_b (B p) + (2 * hb + size_b (B b) + size_b (B n))
          \<and> next_b (B' p) = next_b (B n)
          \<and> (next_b (B n) \<noteq> 0 \<longrightarrow> prev_b (B' (next_b (B n))) = p)
          \<and> (\<forall>a. a \<noteq> p \<and> a \<noteq> next_b (B n) \<longrightarrow> B' a = B a))
    \<and> (pf \<and> \<not> nf \<longrightarrow>
          size_b (B' p) = size_b (B p) + (hb + size_b (B b))
          \<and> next_b (B' p) = n
          \<and> (n \<noteq> 0 \<longrightarrow> prev_b (B' n) = p)
          \<and> (\<forall>a. a \<noteq> p \<and> a \<noteq> n \<longrightarrow> B' a = B a))
    \<and> (\<not> pf \<and> nf \<longrightarrow>
          size_b (B' b) = size_b (B b) + (hb + size_b (B n))
          \<and> next_b (B' b) = next_b (B n)
          \<and> \<not> isUsed (B' b)
          \<and> (next_b (B n) \<noteq> 0 \<longrightarrow> prev_b (B' (next_b (B n))) = b)
          \<and> (\<forall>a. a \<noteq> b \<and> a \<noteq> next_b (B n) \<longrightarrow> B' a = B a))
    \<and> (\<not> pf \<and> \<not> nf \<longrightarrow>
          B' = B(b := (B b)\<lparr>attr_b := attr_b (B b) AND NOT ATTR_USED\<rparr>) \<and> \<not> isUsed (B' b))"
proof -
  have B': "B' = free_switch hb B b" and eq: "free hs hb S b = S\<lparr>blocks := B'\<rparr>"
    using assms(1,2,5) by (simp_all add: free_def)
  have pf: "pf = prev_free B b" and nf: "nf = next_free B b"
    using assms(3,4,6,7) by (simp_all add: prev_free_def next_free_def)
  have both: "size_b (B' p) = size_b (B p) + (2 * hb + size_b (B b) + size_b (B n))
          \<and> next_b (B' p) = next_b (B n)
          \<and> (next_b (B n) \<noteq> 0 \<longrightarrow> prev_b (B' (next_b (B n))) = p)
          \<and> (\<forall>a. a \<noteq> p \<and> a \<noteq> next_b (B n) \<longrightarrow> B' a = B a)" if "pf \<and> nf"
    using that assms(3,4) unfolding B' pf nf
    by (simp add: free_switch_eq merge_both_def Let_def)
  have prev: "size_b (B' p) = size_b (B p) + (hb + size_b (B b))
          \<and> next_b (B' p) = n
          \<and> (n \<noteq> 0 \<longrightarrow> prev_b (B' n) = p)
          \<and> (\<forall>a. a \<noteq> p \<and> a \<noteq> n \<longrightarrow> B' a = B a)" if "pf \<and> \<not> nf"
    using that assms(3,4) unfolding B' pf nf
    by (simp add: free_switch_eq merge_prev_def Let_def)
  have nxt: "size_b (B' b) = size_b (B b) + (hb + size_b (B n))
          \<and> next_b (B' b) = next_b (B n)
          \<and> \<not> isUsed (B' b)
          \<and> (next_b (B n) \<noteq> 0 \<longrightarrow> prev_b (B' (next_b (B n))) = b)
          \<and> (\<forall>a. a \<noteq> b \<and> a \<noteq> next_b (B n) \<longrightarrow> B' a = B a)" if "\<not> pf \<and> nf"
    using that assms(3,4) unfolding B' pf nf
    by (simp add: free_switch_eq merge_next_def Let_def)
  have none: "B' = B(b := (B b)\<lparr>attr_b := attr_b (B b) AND NOT ATTR_USED\<rparr>) \<and> \<not> isUsed (B' b)"
    if "\<not> pf \<and> \<not> nf"
    using that assms(3,4) unfolding B' pf nf
    by (simp add: free_switch_eq)
  from eq both prev nxt none show ?thesis by blast
qed

theorem free_outcomes_witness:
  "(let B' = blocks (free 48 48 (ex_S3 False True False) 0x1070)
    in size_b (B' 0x1030) = 0x3a0 \<and> next_b (B' 0x1030) = 0)
   \<and> (let B' = blocks (free 48 48 (ex_S3 False True True) 0x1070)
    in size_b (B' 0x1030) = 0x60 \<and> next_b (B' 0x1030) = 0x10c0 \<and> prev_b (B' 0x10c0) = 0x1030)
   \<and> (let B' = blocks (free 48 48 (ex_S3 True True False) 0x1070)
    in size_b (B' 0x1070) = 0x360 \<and> next_b (B' 0x1070) = 0 \<and> \<not> isUsed (B' 0x1070))
   \<and> (let B' = blocks (free 48 48 (ex_S3 True True True) 0x1070)
    in B' = (ex_chain True True True)(0x1070 := (ex_chain True True True 0x1070)\<lparr>attr_b := 0\<rparr>))"
proof -
  have bl: "blocks (ex_S3 u1 u2 u3) = ex_chain u1 u2 u3" for u1 u2 u3
    by (simp add: ex_S3_def)
  have a0: "attr_b (ex_chain True True True 0x1070) AND NOT ATTR_USED = 0"
    by (simp add: ex_chain_def ATTR_USED_def)
  show ?thesis
    using free_outcomes [OF ex_S3_canDelete [of False True False] refl refl refl refl refl refl, where hb = 48]
      free_outcomes [OF ex_S3_canDelete [of False True True] refl refl refl refl refl refl, where hb = 48]
      free_outcomes [OF ex_S3_canDelete [of True True False] refl refl refl refl refl refl, where hb = 48]
      free_outcomes [OF ex_S3_canDelete [of True True True] refl refl refl refl refl refl, where hb = 48]
    by (simp add: bl ex_chain_simps a0 Let_def)
qed

text \<open>
  C4, amended. A heap is installed by \<^verbatim>\<open>new (ptr) Heap(isize)\<close> and is constructed; the
  memory from \<open>ptr\<close> of \<open>isize\<close> bytes lies within the address space and holds the heap
  object. Then after every sequence of \<^verbatim>\<open>allocate\<close> and \<^verbatim>\<open>free\<close> calls in which every
  \<^verbatim>\<open>free\<close> is of null or of an outstanding allocation (an address that \<^verbatim>\<open>allocate\<close>
  returned and that has not been freed since), every call returns, and following
  \<^verbatim>\<open>next_\<close> from the first block visits a list of blocks that ends at null, is strictly
  increasing in address (so it has no cycle, and each \<^verbatim>\<open>next_\<close> that is not null points to
  a higher address), and has no two neighbours that are both free. A block is used or
  free by one bit of its attributes, hence exactly one of the two.
\<close>

theorem legal_calls_keep_chain:
  assumes "install d hs hb S0 ptr isize = (h, S1)" and "h \<noteq> 0" and "Heap_isConstructed hs S1 h"
    and "region_ok hs hb ptr isize" and "legal hs hb h (S1, []) cs"
  shows "\<exists>S out bs. run hs hb h (S1, []) cs = Some (S, out)
     \<and> chain (blocks S) (getFirstBlock hs h) bs \<and> sorted_wrt (<) bs \<and> distinct bs
     \<and> (\<forall>b \<in> set bs. next_b (blocks S b) \<noteq> 0 \<longrightarrow> b < next_b (blocks S b))
     \<and> no_adjacent_free (map (\<lambda>b. isUsed (blocks S b)) bs)"
proof -
  note inv1 = install_inv(1) [OF assms(1-4)]
  from run_inv [OF inv1 assms(5)] obtain S out bs where
    "run hs hb h (S1, []) cs = Some (S, out)" "heap_inv hs hb S h bs out" by blast
  with heap_inv_chain [of hs hb S h bs out] show ?thesis by blast
qed

theorem legal_calls_keep_chain_witness:
  "install ram 48 48 ex_init 0x1000 0x400 = (0x1000, ex_fresh)
   \<and> Heap_isConstructed 48 ex_fresh 0x1000 \<and> region_ok 48 48 0x1000 0x400
   \<and> legal 48 48 0x1000 (ex_fresh, []) ex_calls
   \<and> (\<exists>S out bs. run 48 48 0x1000 (ex_fresh, []) ex_calls = Some (S, out)
     \<and> chain (blocks S) 0x1030 bs \<and> sorted_wrt (<) bs \<and> distinct bs
     \<and> (\<forall>b \<in> set bs. next_b (blocks S b) \<noteq> 0 \<longrightarrow> b < next_b (blocks S b))
     \<and> no_adjacent_free (map (\<lambda>b. isUsed (blocks S b)) bs))"
  using legal_calls_keep_chain [OF ex_install _ ex_fresh_constructed ex_region ex_legal]
    ex_install ex_fresh_constructed ex_region ex_legal
  by (simp add: getFirstBlock_def)

text \<open>
  C4 as stated fails for a sequence that frees one allocation twice: after
  \<open>ex_double_free\<close> on the heap \<open>ex_fresh\<close> the chain from the first block is
  \<open>0x1030\<close>, \<open>0x1110\<close>, \<open>0x10e0\<close>, \<open>0x1150\<close>, and the \<^verbatim>\<open>next_\<close> of the block at
  \<open>0x1110\<close> points to the lower address \<open>0x10e0\<close>.
\<close>

theorem double_free_breaks_order:
  "Heap_isConstructed 48 ex_fresh 0x1000
   \<and> run 48 48 0x1000 (ex_fresh, []) ex_double_free = Some (ex_broken, [0x1060, 0x1110])
   \<and> chain (blocks ex_broken) 0x1030 [0x1030, 0x1110, 0x10e0, 0x1150]
   \<and> next_b (blocks ex_broken 0x1110) = 0x10e0 \<and> (0x10e0 :: addr) < 0x1110"
  by (simp add: ex_fresh_constructed ex_broken_def ex_double_free_def ex_eval)

text \<open>
  C5. On a heap just installed (as in C4), after allocations and then frees of all
  outstanding allocations, each once, in any order, every call has returned and the
  chain is the first block alone: it is free and its size is the usable size of the
  heap, \<open>(isize AND NOT 7) - sizeof(Heap)\<close>, minus the size of one block header.
\<close>

theorem free_all_leaves_one_block:
  assumes "install d hs hb S0 ptr isize = (h, S1)" and "h \<noteq> 0" and "Heap_isConstructed hs S1 h"
    and "region_ok hs hb ptr isize"
    and "run hs hb h (S1, []) (map Allocate ns) = Some (S2, out)"
    and "distinct qs" and "set qs = set out"
  shows "\<exists>S3. run hs hb h (S2, out) (map Free qs) = Some (S3, [])
     \<and> chain (blocks S3) (getFirstBlock hs h) [getFirstBlock hs h]
     \<and> \<not> isUsed (blocks S3 (getFirstBlock hs h))
     \<and> size_b (blocks S3 (getFirstBlock hs h)) = ((isize AND NOT 7) - hs) - hb"
proof -
  note inv1 = install_inv(1) [OF assms(1-4)] and ds = install_inv(3) [OF assms(1-4)]
  from run_inv [OF inv1 legal_allocs, of ns] assms(5) obtain bs2 where
    inv2: "heap_inv hs hb S2 h bs2 out" by auto
  have h2: "heaps S2 = heaps S1" using run_heaps [OF assms(5)] .
  from frees_run [OF inv2 assms(6)] assms(7) obtain S3 bs3 where
    r: "run hs hb h (S2, out) (map Free qs) = Some (S3, [])" and inv3: "heap_inv hs hb S3 h bs3 []"
    by auto
  have h3: "heaps S3 = heaps S2" using run_heaps [OF r] .
  from heap_inv_all_free [OF inv3] heap_inv_chain [OF inv3] r ds h2 h3 show ?thesis
    by auto
qed

theorem free_all_leaves_one_block_witness:
  "run 48 48 0x1000 (ex_fresh, []) (map Allocate ex_allocs)
     = Some (ex_three, [0x1110, 0x10a0, 0x1060])
   \<and> (\<exists>S3. run 48 48 0x1000 (ex_three, [0x1110, 0x10a0, 0x1060])
              (map Free [0x10a0, 0x1110, 0x1060]) = Some (S3, [])
     \<and> chain (blocks S3) 0x1030 [0x1030] \<and> \<not> isUsed (blocks S3 0x1030)
     \<and> size_b (blocks S3 0x1030) = 0x3a0)"
  using free_all_leaves_one_block [OF ex_install _ ex_fresh_constructed ex_region ex_allocs_run
      _ ex_frees] ex_allocs_run
  by (simp add: getFirstBlock_def)

text \<open>
  C6. In a state that a legal sequence of calls has reached from a heap just installed,
  an allocation of \<open>n\<close> bytes that returns an address \<open>p\<close> other than null has marked
  the block of \<open>p\<close> used, and the size of that block minus \<open>n\<close> is less than the size of
  a block header.
\<close>

theorem allocation_slack_below_header:
  assumes "install d hs hb S0 ptr isize = (h, S1)" and "h \<noteq> 0" and "Heap_isConstructed hs S1 h"
    and "region_ok hs hb ptr isize" and "legal hs hb h (S1, []) cs"
    and "run hs hb h (S1, []) cs = Some (S, out)"
    and "Heap_allocate hs hb S h n 0 = Some (S', p)" and "p \<noteq> 0"
  shows "isUsed (blocks S' (heapBlock hb p))
     \<and> int (unat (size_b (blocks S' (heapBlock hb p)))) - int (unat n) < int (unat hb)"
proof -
  note inv1 = install_inv(1) [OF assms(1-4)]
  from run_inv [OF inv1 assms(5)] assms(6) obtain bs where inv: "heap_inv hs hb S h bs out"
    by auto
  let ?first = "getFirstBlock hs h"
  let ?e = "unat ?first + unat (data_size (heaps S h))"
  from inv have ci: "chain_inv hb (blocks S) h ?first ?e bs"
    by (simp add: heap_inv_def)
  from alloc_chain [OF ci, of n] obtain B' q bs' where
    al: "alloc hb (blocks S) ?first n = Some (B', q)"
    and nz: "q \<noteq> 0 \<longrightarrow> (\<exists>c \<in> set bs. q = c + hb
             \<and> int (unat (size_b (B' c))) - int (unat n) < int (unat hb))"
    by blast
  from assms(7) al heap_inv_constructed [OF inv] have S': "S' = S\<lparr>blocks := B'\<rparr>" and pq: "p = q"
    by (simp_all add: Heap_allocate_eq)
  from nz pq assms(8) obtain c where c: "p = c + hb"
    "int (unat (size_b (B' c))) - int (unat n) < int (unat hb)" by auto
  have "heapBlock hb p = c" by (simp add: c(1) heapBlock_def)
  moreover have "isUsed (B' (heapBlock hb p))"
    using alloc_result [OF al [folded pq] assms(8)] by simp
  ultimately show ?thesis using c(2) S' by simp
qed

theorem allocation_slack_below_header_witness:
  "legal 48 48 0x1000 (ex_fresh, []) ex_calls2
   \<and> run 48 48 0x1000 (ex_fresh, []) ex_calls2 = Some (ex_mid, [0x10a0])
   \<and> Heap_allocate 48 48 ex_mid 0x1000 5 0 = Some (ex_last, 0x1060)
   \<and> isUsed (blocks ex_last 0x1030)
   \<and> int (unat (size_b (blocks ex_last 0x1030))) - int (unat (5 :: addr)) < int (unat (48 :: addr))"
  using allocation_slack_below_header [OF ex_install _ ex_fresh_constructed ex_region ex_legal2
      ex_calls2_run ex_mid_allocate] ex_legal2 ex_calls2_run ex_mid_allocate
  by (simp add: heapBlock_def)

text \<open>
  C1 at the request \<open>0xFFFFFFFFFFFFFFFF\<close> on the heap \<open>ex_fresh\<close>: the aligned size
  wraps to zero, the scan stops at the free block at \<open>0x1030\<close>, which is split and
  marked used with size zero, and \<^verbatim>\<open>allocate\<close> returns its payload address \<open>0x1060\<close>,
  which is the address of the header of the new free block.
\<close>

theorem alloc_wraps_huge_request:
  "map_option snd (Heap_allocate 48 48 ex_fresh 0x1000 0xFFFFFFFFFFFFFFFF 0) = Some 0x1060
   \<and> isUsed (blocks (fst (the (Heap_allocate 48 48 ex_fresh 0x1000 0xFFFFFFFFFFFFFFFF 0))) 0x1030)
   \<and> size_b (blocks (fst (the (Heap_allocate 48 48 ex_fresh 0x1000 0xFFFFFFFFFFFFFFFF 0))) 0x1030) = 0
   \<and> align8 0xFFFFFFFFFFFFFFFF = 0"
  by (simp add: ex_eval)

text \<open>
  C3 at \<^verbatim>\<open>new (0x1000) Heap(8)\<close> with \<^verbatim>\<open>sizeof(Heap) = 48\<close>, on memory that holds
  writes: the usable size wraps to \<open>0xFFFFFFFFFFFFFFD8\<close>, the test of the size in
  \<^verbatim>\<open>construct\<close> does not reject it, and the heap is constructed.
\<close>

theorem small_region_is_constructed:
  "fst (install ram 48 48 ex_init 0x1000 8) = 0x1000
   \<and> data_size (heaps (snd (install ram 48 48 ex_init 0x1000 8)) 0x1000) = 0xFFFFFFFFFFFFFFD8
   \<and> Heap_isConstructed 48 (snd (install ram 48 48 ex_init 0x1000 8)) 0x1000"
  by (simp add: install_def Heap_new_def create_def Heap_ctor_def construct_def
      HeapData_ctor_def setConstructed_def HeapBlock_new_def HeapBlock_ctor_def getFirstBlock_def
      case_prod_beta Let_def ex_init_def ex_junk_def Heap_isConstructed_def isConstructed_def
      holds_writes_passes [OF ram_holds_writes])

text \<open>
  X1. On the chain of a heap, a request of \<open>n\<close> bytes, not zero and at most
  \<open>2 ^ 64 - 8\<close>, is aligned to the next multiple of 8, and \<^verbatim>\<open>alloc\<close> returns: null and
  the store unchanged when no block of the chain is free with a size of at least the
  aligned request; otherwise the payload address of the first such block \<open>c\<close>, which is
  split (\<open>split_at\<close>) when its size is at least the aligned request plus a header and
  is only marked used when not.
\<close>

theorem alloc_first_fit:
  assumes inv: "chain_inv hb B h first e bs" and n: "n \<noteq> 0" "unat n \<le> 2 ^ 64 - 8"
  shows "8 dvd unat (align8 n) \<and> unat n \<le> unat (align8 n) \<and> unat (align8 n) < unat n + 8
    \<and> alloc hb B first n = Some
       (case find (\<lambda>b. \<not> isUsed (B b) \<and> align8 n \<le> size_b (B b)) bs of
          None \<Rightarrow> (B, 0)
        | Some c \<Rightarrow>
            (if align8 n + hb \<le> size_b (B c) then split_at hb B h c (align8 n)
             else B(c := (B c)\<lparr>attr_b := attr_b (B c) OR ATTR_USED\<rparr>), c + hb))"
proof -
  define sz where "sz = align8 n"
  from inv have hb: "hb \<noteq> 0" "8 dvd unat hb" and e: "e < 2 ^ 64" and ne: "bs \<noteq> []"
    and L: "lay hb B h 0 first (unat first) bs 0 e"
    by (simp_all add: chain_inv_def)
  have hb8: "8 \<le> unat hb" using hb by (rule hb_ge8)
  have fe: "fits B s = (\<lambda>b. \<not> isUsed (B b) \<and> s \<le> size_b (B b))" for s
    by (auto simp: fits_def fun_eq_iff)
  have scan: "alloc_scan B sz first = Some (case find (fits B sz) bs of None \<Rightarrow> 0 | Some c \<Rightarrow> c)"
    using L by (rule lay_scan)
  have al: "8 dvd unat sz" "unat n \<le> unat sz" "unat sz < unat n + 8"
    using align8_dvd [of n] align8_bounds(1) [of n] align8_bounds(2) [OF n(2)]
    by (simp_all add: sz_def)
  have res: "alloc hb B first n = Some
       (case find (fits B sz) bs of
          None \<Rightarrow> (B, 0)
        | Some c \<Rightarrow>
            (if sz + hb \<le> size_b (B c) then split_at hb B h c sz
             else B(c := (B c)\<lparr>attr_b := attr_b (B c) OR ATTR_USED\<rparr>), c + hb))"
  proof (cases "find (fits B sz) bs")
    case None
    then show ?thesis
      using alloc_none [OF n(1), of B first hb] scan by (simp add: sz_def)
  next
    case (Some c)
    then have cin: "c \<in> set bs" and fit: "fits B sz c"
      by (auto simp: find_Some_iff)
    from lay_elem [OF L cin] have c: "c \<noteq> 0" "8 dvd unat c" "8 dvd unat (size_b (B c))"
      "unat c + unat hb + unat (size_b (B c)) \<le> e" by simp_all
    have first: "heap_b (B first) = h"
      using lay_elem [OF L, of first] lay_hd [OF L ne] ne by (cases bs) auto
    have szle: "unat sz \<le> unat (size_b (B c))"
      using fit by (simp_all add: fits_def word_less_nat_alt)
    have usum: "unat (sz + hb) = unat sz + unat hb"
      using szle c(4) e by (intro unat_add_small) simp
    have up: "unat (c + hb) = unat c + unat hb"
      using c(4) e by (intro unat_add_small) simp
    have sc: "alloc_scan B (align8 n) first = Some c"
      using scan Some by (simp add: sz_def)
    show ?thesis
    proof (cases "sz + hb \<le> size_b (B c)")
      case True
      define N where "N = c + hb + sz"
      have fit2: "unat sz + unat hb \<le> unat (size_b (B c))"
        using True usum by (simp add: word_le_nat_alt)
      have uN: "unat N = unat c + unat hb + unat sz"
        unfolding N_def using up fit2 c(4) e by (subst unat_add_small) simp_all
      have N8: "N AND 7 = 0"
        using uN c(2) hb(2) al(1) by (simp add: dvd8_and7 [symmetric])
      have Nnz: "N \<noteq> 0" "N \<noteq> c"
        using uN hb8 by (auto simp: unat_gt_0 [symmetric] simp del: unat_gt_0)
      have new: "HeapBlock_new hb N = N"
        using N8 hb(2) by (simp add: HeapBlock_new_def dvd8_and7)
      have "alloc hb B first n = Some (split_at hb B h c sz, c + hb)"
        using alloc_split [OF n(1) sc c(1), of hb] True new Nnz first
        by (simp add: N_def sz_def)
      then show ?thesis using Some True by simp
    next
      case False
      have "alloc hb B first n = Some (B(c := (B c)\<lparr>attr_b := attr_b (B c) OR ATTR_USED\<rparr>), c + hb)"
        using alloc_nosplit [OF n(1) sc c(1), of hb] False
        by (simp add: sz_def)
      then show ?thesis using Some False by simp
    qed
  qed
  show ?thesis
    using al res unfolding fe sz_def by simp
qed

theorem alloc_first_fit_witness:
  "chain_inv 48 ex_B 0x1000 0x1030 0x1400 [0x1030]
   \<and> align8 13 = 16
   \<and> alloc 48 ex_B 0x1030 13 = Some (split_at 48 ex_B 0x1000 0x1030 16, 0x1060)"
  using alloc_first_fit [OF ex_B_chain_inv, of 13] ex_B_chain_inv
  by (simp add: align8_def ex_B_def isUsed_def ATTR_USED_def)

text \<open>
  X2. \<^verbatim>\<open>new (ptr) Heap(isize)\<close> is null when \<open>ptr\<close> is not 8-aligned. The constructor
  leaves the heap not constructed when the usable size \<open>(isize AND NOT 7) - sizeof(Heap)\<close>
  does not wrap and is less than a header and sixteen bytes, and when the memory test
  over the usable range fails. On a heap that is not constructed \<^verbatim>\<open>allocate\<close> returns
  null and \<^verbatim>\<open>free\<close> changes nothing.
\<close>

theorem construction_rejects:
  "(ptr AND 7 \<noteq> 0 \<longrightarrow> fst (install d hs hb S ptr isize) = 0)
   \<and> (unat hb + 16 < 2 ^ 64 \<and> unat hs \<le> unat (isize AND NOT 7)
        \<and> unat (isize AND NOT 7) - unat hs < unat hb + 16
      \<longrightarrow> \<not> Heap_isConstructed hs (Heap_ctor d hs hb S this isize) this)
   \<and> (\<not> fst (isMemoryAvailable d (cells S) (this + hs) ((isize AND NOT 7) - hs))
      \<longrightarrow> \<not> Heap_isConstructed hs (Heap_ctor d hs hb S this isize) this)
   \<and> (\<not> Heap_isConstructed hs S this
      \<longrightarrow> Heap_allocate hs hb S this n q = Some (S, 0) \<and> Heap_free hs hb S this p = S)"
  using install_misaligned [of ptr d hs hb S isize] Heap_ctor_size [of hb hs isize d S this]
    Heap_ctor_memory [of d S this hs isize hb]
  by (simp add: Heap_allocate_eq Heap_free_eq)

theorem construction_rejects_witness:
  "fst (install ram 48 48 ex_init 0x1001 0x400) = 0
   \<and> \<not> Heap_isConstructed 48 (Heap_ctor ram 48 48 ex_init 0x1000 0x40) 0x1000
   \<and> \<not> Heap_isConstructed 48 (Heap_ctor absent 48 48 ex_S 0x1000 0x400) 0x1000
   \<and> Heap_allocate 48 48 ex_init 0x1000 16 0 = Some (ex_init, 0)
   \<and> Heap_free 48 48 ex_init 0x1000 0x1060 = ex_init"
  using construction_rejects [of "0x1001" ram 48 48 ex_init "0x400" "0x1000" 16 0 "0x1060"]
    construction_rejects [of "0x1000" ram 48 48 ex_init "0x40" "0x1000" 16 0 "0x1060"]
    construction_rejects [of "0x1000" absent 48 48 ex_S "0x400" "0x1000" 16 0 "0x1060"]
    absent_fails [of "0x3d0" "cells ex_S" "0x1030"] ex_init_not_constructed
  by simp

end
